theory Spec2Isabelle
  imports Main
begin

section \<open>JavaScript values\<close>

text \<open>
  The values that flow through dependency lists, state cells and keys. Objects and
  functions are represented by their reference (\<open>VObj\<close>), so that equality of two
  \<open>jsval\<close>s is JavaScript's \<open>Object.is\<close>: \<open>NaN\<close> is identical to itself and
  \<open>+0\<close> differs from \<open>-0\<close>.
\<close>

datatype jsval =
    VUndefined
  | VNull
  | VBool bool
  | VNum int
  | VNegZero
  | VNaN
  | VStr string
  | VObj nat

definition object_is :: "jsval \<Rightarrow> jsval \<Rightarrow> bool" where
  "object_is a b = (a = b)"

text \<open>A dependency list as a hook stores it: \<open>undefined\<close>, \<open>null\<close> or an array.\<close>

datatype deps = DUndefined | DNull | DArr "jsval list"

fun deps_truthy :: "deps \<Rightarrow> bool" where
  "deps_truthy (DArr _) = True"
| "deps_truthy _ = False"

datatype error = Error string | TypeError string | NotFoundError

section \<open>Elements (vdom/createElement.js, core/constants.js)\<close>

text \<open>
  An element type is a host tag (a string) or a component function. A function is an
  object: \<open>===\<close> compares the reference (first field); its \<open>name\<close> and its source text
  (\<open>toString()\<close>) are the second and third fields.
\<close>

datatype kind = Host string | Func nat string string

fun strict_eq_kind :: "kind \<Rightarrow> kind \<Rightarrow> bool" where
  "strict_eq_kind (Host a) (Host b) = (a = b)"
| "strict_eq_kind (Func i _ _) (Func j _ _) = (i = j)"
| "strict_eq_kind _ _ = False"

definition TEXT_ELEMENT :: string where
  "TEXT_ELEMENT = ''TEXT_ELEMENT''"

datatype element = Element (etype: kind) (eprops: props)
  and props = Props (pkey: "jsval option") (pattrs: "(string \<times> jsval) list")
                    (pchildren: "element option list")

datatype effect_tag = PLACEMENT | UPDATE | DELETION

section \<open>Callbacks\<close>

text \<open>
  Effect callbacks and cleanup functions are user code. A callback is represented by what
  the library can observe of one invocation: which setters it calls, in order, and how it
  ends (it throws, or it returns; an effect may return a cleanup function).
\<close>

datatype action = Val jsval | Fn "jsval \<Rightarrow> jsval"

datatype call = SetStateCall string action | DispatchCall string jsval

record cleanup_fn =
  cl_id :: nat
  cl_calls :: "call list"
  cl_throws :: bool

datatype effect_result = Throws | ReturnsCleanup cleanup_fn | ReturnsOther

record effect_fn =
  ef_id :: nat
  ef_calls :: "call list"
  ef_result :: effect_result

section \<open>Hook records and work units\<close>

datatype hook =
    StateHook jsval string
  | ReducerHook jsval string
  | EffectHook "effect_fn option" "cleanup_fn option" deps bool
  | MemoHook jsval deps
  | RefHook nat
  | ContextHook nat jsval
  | Hole

text \<open>Field reads on a hook object of any variant; a missing field reads \<open>undefined\<close>.\<close>

fun hook_cleanup :: "hook \<Rightarrow> cleanup_fn option" where
  "hook_cleanup (EffectHook e c d h) = c"
| "hook_cleanup _ = None"

fun hook_deps :: "hook \<Rightarrow> deps" where
  "hook_deps (EffectHook e c d h) = d"
| "hook_deps (MemoHook v d) = d"
| "hook_deps _ = DUndefined"

fun hook_value :: "hook \<Rightarrow> jsval" where
  "hook_value (MemoHook v d) = v"
| "hook_value (ContextHook c v) = v"
| "hook_value _ = VUndefined"

type_synonym handle = nat

text \<open>
  What is read through a work unit's \<open>parent\<close> pointer: the ancestor's \<open>dom\<close> (commit) and
  its \<open>contextProviders\<close> (useContext). \<open>fparent\<close> lists the ancestors, nearest first.
\<close>

record pinfo =
  p_dom :: "handle option"
  p_ctx :: "(nat \<times> jsval) list"

record fdata =
  ftype :: "kind option"
  fprops :: props
  fdom :: "handle option"
  fparent :: "pinfo list"
  feffectTag :: "effect_tag option"
  fhooks :: "hook list option"
  fctx :: "(nat \<times> jsval) list"

text \<open>
  A work unit with its \<open>alternate\<close>, \<open>child\<close>, \<open>sibling\<close> and \<open>deletions\<close>. Units are
  values: a pointer holds the unit as it is when the pointer is set. Root units, which
  \<open>currentRoot\<close>, \<open>wipRoot\<close>, \<open>nextUnitOfWork\<close> and a root's \<open>alternate\<close> share, are kept in
  a store and referred to by address (see \<open>root_cell\<close>); a unit inside a tree is reached
  from its root by a path, and what the render phase or the effect pass does to it is
  written back into the tree.
\<close>

datatype fiber =
  Fiber (fdata: fdata) (falternate: "fiber option") (fchild: "fiber option")
        (fsibling: "fiber option") (fdeletions: "fiber list option")

datatype step = Child | Sibling

record root_cell =
  rc_fiber :: fiber
  rc_alt :: "nat option"

datatype event = CleanupRun nat | EffectRun nat | RenderRun nat

datatype console_msg =
    ErrCleanupAt nat
  | ErrEffectAt nat
  | WarnNoCurrentRoot

section \<open>Module state\<close>

text \<open>
  All module-level variables of core/fiber.js, hooks/useState.js and hooks/useReducer.js,
  the \<open>window.minireact\<close> object, the ref objects, the output tree and the console, in
  one record.
  Root work units are objects shared between \<open>currentRoot\<close>, \<open>wipRoot\<close>,
  \<open>nextUnitOfWork\<close> and a root's \<open>alternate\<close>; they live in \<open>roots\<close> and are
  referred to by address. \<open>idleCallbacks\<close> counts the pending
  \<open>requestIdleCallback(workLoop)\<close> registrations.
\<close>

record world =
  has_window :: bool
  nextUnitOfWork :: "(nat \<times> step list) option"
  currentRoot :: "nat option"
  wipRoot :: "nat option"
  wipFiber :: "fiber option"
  hookIndex :: "nat option"
  rootContainer :: "handle option"
  isWorkLoopRunning :: bool
  globalDeletions :: "fiber list"
  win_deletions :: "fiber list option"
  win_wipFiber :: "fiber option"
  win_hookIndex :: "nat option"
  roots :: "nat \<Rightarrow> root_cell"
  next_root :: nat
  idleCallbacks :: nat
  updateQueues :: "string \<rightharpoonup> action list"
  hookStates :: "string \<rightharpoonup> jsval"
  actionQueues :: "string \<rightharpoonup> jsval list"
  reducerStates :: "string \<rightharpoonup> jsval"
  dispatchers :: "string set"
  ref_cells :: "nat \<Rightarrow> jsval"
  next_ref :: nat
  dom_kids :: "handle \<Rightarrow> handle list"
  dom_next :: handle
  console :: "console_msg list"
  trace :: "event list"

section \<open>The output tree\<close>

text \<open>
  \<open>Node.contains\<close>: the node itself or a descendant. Every node of the tree is below
  \<open>dom_next\<close>, which bounds the depth of the search.
\<close>

fun contains_upto :: "nat \<Rightarrow> (handle \<Rightarrow> handle list) \<Rightarrow> handle \<Rightarrow> handle \<Rightarrow> bool" where
  "contains_upto 0 kids p x = (p = x)"
| "contains_upto (Suc n) kids p x = (p = x \<or> list_ex (\<lambda>c. contains_upto n kids c x) (kids p))"

definition dom_contains :: "world \<Rightarrow> handle \<Rightarrow> handle \<Rightarrow> bool" where
  "dom_contains w p x = contains_upto (dom_next w) (dom_kids w) p x"

definition removeChild :: "handle \<Rightarrow> handle \<Rightarrow> world \<Rightarrow> error + world" where
  "removeChild p x w =
     (if x \<in> set (dom_kids w p)
      then Inr (w\<lparr>dom_kids := (dom_kids w)(p := remove1 x (dom_kids w p))\<rparr>)
      else Inl NotFoundError)"

definition appendChild :: "handle \<Rightarrow> handle \<Rightarrow> world \<Rightarrow> world" where
  "appendChild p x w =
     w\<lparr>dom_kids := (\<lambda>h. if h = p then remove1 x (dom_kids w p) @ [x]
                          else remove1 x (dom_kids w h))\<rparr>"

section \<open>Scheduling a re-render (core/fiber.js)\<close>

definition startWorkLoop :: "world \<Rightarrow> world" where
  "startWorkLoop w =
     (if \<not> isWorkLoopRunning w
      then w\<lparr>isWorkLoopRunning := True, idleCallbacks := Suc (idleCallbacks w)\<rparr>
      else w)"

definition root_fiber :: "handle option \<Rightarrow> props \<Rightarrow> fiber" where
  "root_fiber d p =
     Fiber \<lparr>ftype = None, fprops = p, fdom = d, fparent = [], feffectTag = None,
            fhooks = None, fctx = []\<rparr> None None None None"

definition scheduleRerender :: "world \<Rightarrow> world" where
  "scheduleRerender w =
     (case currentRoot w of
        None \<Rightarrow> w\<lparr>console := console w @ [WarnNoCurrentRoot]\<rparr>
      | Some a \<Rightarrow>
          (let cur = fdata (rc_fiber (roots w a));
               n = next_root w;
               cell = \<lparr>rc_fiber = root_fiber (fdom cur) (fprops cur), rc_alt = Some a\<rparr>;
               w1 = w\<lparr>roots := (roots w)(n := cell), next_root := Suc n,
                      wipRoot := Some n, nextUnitOfWork := Some (n, [])\<rparr>;
               w2 = (if has_window w1 then w1\<lparr>win_deletions := Some []\<rparr> else w1)
           in startWorkLoop w2))"

section \<open>Setters (hooks/useState.js, hooks/useReducer.js)\<close>

fun apply_action :: "action \<Rightarrow> jsval \<Rightarrow> jsval" where
  "apply_action (Fn f) s = f s"
| "apply_action (Val v) s = v"

definition map_get :: "(string \<rightharpoonup> jsval) \<Rightarrow> string \<Rightarrow> jsval" where
  "map_get m k = (case m k of None \<Rightarrow> VUndefined | Some v \<Rightarrow> v)"

text \<open>The \<open>setState\<close> closure that \<open>useState\<close> creates for the cell \<open>hookKey\<close>.\<close>

definition setState :: "string \<Rightarrow> action \<Rightarrow> world \<Rightarrow> world" where
  "setState hookKey act w =
     (let currentState = map_get (hookStates w) hookKey;
          nextValue = apply_action act currentState
      in if object_is nextValue currentState then w
         else
           (let w1 = (case updateQueues w hookKey of
                        Some q \<Rightarrow> w\<lparr>updateQueues := (updateQueues w)(hookKey \<mapsto> q @ [act])\<rparr>
                      | None \<Rightarrow> w)
            in scheduleRerender w1))"

text \<open>The \<open>dispatch\<close> closure that \<open>useReducer\<close> creates for the cell \<open>hookKey\<close>.\<close>

definition dispatch :: "string \<Rightarrow> jsval \<Rightarrow> world \<Rightarrow> world" where
  "dispatch hookKey a w =
     (let w1 = (case actionQueues w hookKey of
                  Some q \<Rightarrow> w\<lparr>actionQueues := (actionQueues w)(hookKey \<mapsto> q @ [a])\<rparr>
                | None \<Rightarrow> w)
      in scheduleRerender w1)"

section \<open>Invoking callbacks\<close>

fun run_call :: "call \<Rightarrow> world \<Rightarrow> world" where
  "run_call (SetStateCall k a) w = setState k a w"
| "run_call (DispatchCall k a) w = dispatch k a w"

fun run_calls :: "call list \<Rightarrow> world \<Rightarrow> world" where
  "run_calls [] w = w"
| "run_calls (c # cs) w = run_calls cs (run_call c w)"

text \<open>\<open>cleanup()\<close>: the second component tells whether the call threw.\<close>

definition call_cleanup :: "cleanup_fn \<Rightarrow> world \<Rightarrow> world \<times> bool" where
  "call_cleanup c w =
     (run_calls (cl_calls c) (w\<lparr>trace := trace w @ [CleanupRun (cl_id c)]\<rparr>), cl_throws c)"

definition call_effect :: "effect_fn \<Rightarrow> world \<Rightarrow> world \<times> effect_result" where
  "call_effect e w =
     (run_calls (ef_calls e) (w\<lparr>trace := trace w @ [EffectRun (ef_id e)]\<rparr>), ef_result e)"

definition console_error :: "console_msg \<Rightarrow> world \<Rightarrow> world" where
  "console_error m w = w\<lparr>console := console w @ [m]\<rparr>"

section \<open>The commit phase (core/commit.js)\<close>

fun depsChanged :: "deps \<Rightarrow> deps \<Rightarrow> bool" where
  "depsChanged (DArr prevDeps) (DArr nextDeps) =
     (if length prevDeps \<noteq> length nextDeps then True
      else list_ex (\<lambda>(dep, n). \<not> object_is dep n) (zip prevDeps nextDeps))"
| "depsChanged _ _ = True"

text \<open>\<open>try { cleanup() } catch (error) { console.error(...) }\<close>\<close>

definition try_cleanup :: "cleanup_fn \<Rightarrow> nat \<Rightarrow> world \<Rightarrow> world" where
  "try_cleanup c index w =
     (case call_cleanup c w of
        (w1, threw) \<Rightarrow> if threw then console_error (ErrCleanupAt index) w1 else w1)"

text \<open>The callback of the \<open>forEach\<close> in \<open>cleanupEffects\<close>, and the loop itself.\<close>

definition cleanupEffects_step :: "hook \<Rightarrow> nat \<Rightarrow> world \<Rightarrow> hook \<times> world" where
  "cleanupEffects_step h index w =
     (case h of
        EffectHook e (Some c) d hc \<Rightarrow> (EffectHook e None d hc, try_cleanup c index w)
      | _ \<Rightarrow> (h, w))"

fun cleanup_hooks :: "hook list \<Rightarrow> nat \<Rightarrow> world \<Rightarrow> hook list \<times> world" where
  "cleanup_hooks [] index w = ([], w)"
| "cleanup_hooks (h # hs) index w =
     (case cleanupEffects_step h index w of
        (h', w1) \<Rightarrow>
          (case cleanup_hooks hs (Suc index) w1 of
             (hs', w2) \<Rightarrow> (h' # hs', w2)))"

definition cleanup_unit :: "hook list option \<Rightarrow> world \<Rightarrow> hook list option \<times> world" where
  "cleanup_unit hooks w =
     (case hooks of
        None \<Rightarrow> (None, w)
      | Some hs \<Rightarrow> (case cleanup_hooks hs 0 w of (hs', w') \<Rightarrow> (Some hs', w')))"

fun cleanupEffects :: "fiber option \<Rightarrow> world \<Rightarrow> fiber option \<times> world" where
  "cleanupEffects None w = (None, w)"
| "cleanupEffects (Some (Fiber d a c s dl)) w =
     (case cleanup_unit (fhooks d) w of
        (hooks', w1) \<Rightarrow>
          (case cleanupEffects c w1 of
             (c', w2) \<Rightarrow>
               (case cleanupEffects s w2 of
                  (s', w3) \<Rightarrow> (Some (Fiber (d\<lparr>fhooks := hooks'\<rparr>) a c' s' dl), w3))))"

text \<open>\<open>fiber.alternate && fiber.alternate.hooks && fiber.alternate.hooks[index]\<close>\<close>

definition old_hook_at :: "fiber option \<Rightarrow> nat \<Rightarrow> hook option" where
  "old_hook_at alt index =
     (case alt of
        None \<Rightarrow> None
      | Some af \<Rightarrow>
          (case fhooks (fdata af) of
             None \<Rightarrow> None
           | Some ohs \<Rightarrow> if index < length ohs then Some (ohs ! index) else None))"

definition shouldRunCleanup :: "hook option \<Rightarrow> deps \<Rightarrow> cleanup_fn option" where
  "shouldRunCleanup oldHook d =
     (case oldHook of
        None \<Rightarrow> None
      | Some oh \<Rightarrow>
          (case hook_cleanup oh of
             None \<Rightarrow> None
           | Some c \<Rightarrow>
               if \<not> deps_truthy d \<or> \<not> deps_truthy (hook_deps oh) \<or> depsChanged (hook_deps oh) d
               then Some c else None))"

definition shouldRunEffect :: "hook option \<Rightarrow> deps \<Rightarrow> bool" where
  "shouldRunEffect oldHook d =
     (\<not> deps_truthy d \<or> oldHook = None \<or> depsChanged (hook_deps (the oldHook)) d)"

text \<open>First \<open>forEach\<close> of \<open>runEffects\<close>: the cleanups of the previous generation's hooks.\<close>

definition cleanup_step :: "hook \<Rightarrow> fiber option \<Rightarrow> nat \<Rightarrow> world \<Rightarrow> world" where
  "cleanup_step h alt index w =
     (case h of
        EffectHook e c d hc \<Rightarrow>
          (case shouldRunCleanup (old_hook_at alt index) d of
             Some oc \<Rightarrow> try_cleanup oc index w
           | None \<Rightarrow> w)
      | _ \<Rightarrow> w)"

fun run_cleanups :: "hook list \<Rightarrow> fiber option \<Rightarrow> nat \<Rightarrow> world \<Rightarrow> world" where
  "run_cleanups [] alt index w = w"
| "run_cleanups (h # hs) alt index w = run_cleanups hs alt (Suc index) (cleanup_step h alt index w)"

text \<open>Second \<open>forEach\<close> of \<open>runEffects\<close>: the effects that are due.\<close>

definition try_effect :: "hook \<Rightarrow> effect_fn \<Rightarrow> nat \<Rightarrow> world \<Rightarrow> hook \<times> world" where
  "try_effect h f index w =
     (case h of
        EffectHook e c d hc \<Rightarrow>
          (case call_effect f w of
             (w1, Throws) \<Rightarrow> (h, console_error (ErrEffectAt index) w1)
           | (w1, ReturnsCleanup cl) \<Rightarrow> (EffectHook e (Some cl) d hc, w1)
           | (w1, ReturnsOther) \<Rightarrow> (EffectHook e None d hc, w1))
      | _ \<Rightarrow> (h, w))"

definition effect_step :: "hook \<Rightarrow> fiber option \<Rightarrow> nat \<Rightarrow> world \<Rightarrow> hook \<times> world" where
  "effect_step h alt index w =
     (case h of
        EffectHook e c d hc \<Rightarrow>
          (case e of
             Some f \<Rightarrow>
               if shouldRunEffect (old_hook_at alt index) d
               then try_effect h f index w else (h, w)
           | None \<Rightarrow> (h, w))
      | _ \<Rightarrow> (h, w))"

fun run_effects :: "hook list \<Rightarrow> fiber option \<Rightarrow> nat \<Rightarrow> world \<Rightarrow> hook list \<times> world" where
  "run_effects [] alt index w = ([], w)"
| "run_effects (h # hs) alt index w =
     (case effect_step h alt index w of
        (h', w1) \<Rightarrow>
          (case run_effects hs alt (Suc index) w1 of
             (hs', w2) \<Rightarrow> (h' # hs', w2)))"

definition effects_unit ::
  "hook list option \<Rightarrow> fiber option \<Rightarrow> world \<Rightarrow> hook list option \<times> world" where
  "effects_unit hooks alt w =
     (case hooks of
        None \<Rightarrow> (None, w)
      | Some hs \<Rightarrow>
          (case run_effects hs alt 0 (run_cleanups hs alt 0 w) of
             (hs', w') \<Rightarrow> (Some hs', w')))"

fun runEffects :: "fiber option \<Rightarrow> world \<Rightarrow> fiber option \<times> world" where
  "runEffects None w = (None, w)"
| "runEffects (Some (Fiber d a c s dl)) w =
     (case effects_unit (fhooks d) a w of
        (hooks', w1) \<Rightarrow>
          (case runEffects c w1 of
             (c', w2) \<Rightarrow>
               (case runEffects s w2 of
                  (s', w3) \<Rightarrow> (Some (Fiber (d\<lparr>fhooks := hooks'\<rparr>) a c' s' dl), w3))))"

section \<open>The reconciler (core/reconciler.js)\<close>

text \<open>\<open>addDeletion\<close> of core/fiber.js.\<close>

definition addDeletion :: "fiber \<Rightarrow> world \<Rightarrow> world" where
  "addDeletion f w =
     (if has_window w
      then w\<lparr>win_deletions :=
               Some ((case win_deletions w of None \<Rightarrow> [] | Some ds \<Rightarrow> ds) @ [f])\<rparr>
      else w\<lparr>globalDeletions := globalDeletions w @ [f]\<rparr>)"

text \<open>The list that \<open>workLoop\<close> hands to \<open>commitRoot\<close>.\<close>

definition pending_deletions :: "world \<Rightarrow> fiber list" where
  "pending_deletions w =
     (if has_window w then (case win_deletions w of None \<Rightarrow> [] | Some ds \<Rightarrow> ds)
      else globalDeletions w)"

text \<open>What the children of a unit see through their \<open>parent\<close> pointer.\<close>

definition child_parent :: "fiber \<Rightarrow> pinfo list" where
  "child_parent f = \<lparr>p_dom = fdom (fdata f), p_ctx = fctx (fdata f)\<rparr> # fparent (fdata f)"

text \<open>\<open>oldFiber && element && element.type === oldFiber.type\<close>\<close>

definition sameType :: "fiber option \<Rightarrow> element option \<Rightarrow> bool" where
  "sameType oldFiber element =
     (case oldFiber of
        None \<Rightarrow> False
      | Some old \<Rightarrow>
          (case element of
             None \<Rightarrow> False
           | Some el \<Rightarrow>
               (case ftype (fdata old) of
                  None \<Rightarrow> False
                | Some t \<Rightarrow> strict_eq_kind (etype el) t)))"

text \<open>
  The unit for an element of the old unit's type. Its \<open>alternate\<close> is the old unit as it
  is now; what the commit does to the old unit afterwards (the cleanups that
  \<open>cleanupEffects\<close> clears when the old unit is a later sibling of a removed one) is not
  seen through it.
\<close>

definition update_fiber :: "pinfo list \<Rightarrow> fiber \<Rightarrow> element \<Rightarrow> fiber" where
  "update_fiber par old el =
     Fiber \<lparr>ftype = ftype (fdata old), fprops = eprops el, fdom = fdom (fdata old),
            fparent = par, feffectTag = Some UPDATE, fhooks = None, fctx = []\<rparr>
       (Some old) None None None"

definition placement_fiber :: "pinfo list \<Rightarrow> element \<Rightarrow> fiber" where
  "placement_fiber par el =
     Fiber \<lparr>ftype = Some (etype el), fprops = eprops el, fdom = None,
            fparent = par, feffectTag = Some PLACEMENT, fhooks = None, fctx = []\<rparr>
       None None None None"

text \<open>\<open>oldFiber.effectTag = EFFECT_TAGS.DELETION\<close>\<close>

definition mark_deletion :: "fiber \<Rightarrow> fiber" where
  "mark_deletion f =
     Fiber ((fdata f)\<lparr>feffectTag := Some DELETION\<rparr>) (falternate f) (fchild f) (fsibling f)
       (fdeletions f)"

definition new_fiber :: "pinfo list \<Rightarrow> fiber option \<Rightarrow> element option \<Rightarrow> fiber option" where
  "new_fiber par oldFiber element =
     (case element of
        None \<Rightarrow> None
      | Some el \<Rightarrow>
          if sameType oldFiber element
          then (case oldFiber of Some old \<Rightarrow> Some (update_fiber par old el) | None \<Rightarrow> None)
          else Some (placement_fiber par el))"

fun option_list :: "'a option \<Rightarrow> 'a list" where
  "option_list None = []"
| "option_list (Some x) = [x]"

text \<open>\<open>elements[index]\<close>, where \<open>es\<close> are the elements from \<open>index\<close> on.\<close>

definition next_element :: "element option list \<Rightarrow> element option" where
  "next_element es = (case es of [] \<Rightarrow> None | e # _ \<Rightarrow> e)"

text \<open>The old unit to delete at this position, already tagged.\<close>

definition removal :: "fiber option \<Rightarrow> element option \<Rightarrow> fiber option" where
  "removal oldFiber element =
     (case oldFiber of
        Some old \<Rightarrow> if sameType oldFiber element then None else Some (mark_deletion old)
      | None \<Rightarrow> None)"

definition add_removal :: "fiber option \<Rightarrow> world \<Rightarrow> world" where
  "add_removal r w = (case r of Some d \<Rightarrow> addDeletion d w | None \<Rightarrow> w)"

definition next_old :: "fiber option \<Rightarrow> fiber option" where
  "next_old oldFiber = (case oldFiber of Some old \<Rightarrow> fsibling old | None \<Rightarrow> None)"

text \<open>
  The \<open>while\<close> loop of \<open>reconcileChildren\<close>. \<open>es\<close> are the elements from \<open>index\<close> on;
  \<open>prevNull\<close> tells whether \<open>prevSibling\<close> is \<open>null\<close>; \<open>acc\<close> is the chain of new units
  linked so far, \<open>dels\<close> is \<open>wipFiber.deletions\<close>. Linking to a \<open>null\<close> \<open>prevSibling\<close> is
  a TypeError.
\<close>

function reconcile_loop ::
  "pinfo list \<Rightarrow> nat \<Rightarrow> element option list \<Rightarrow> fiber option \<Rightarrow> bool \<Rightarrow> fiber list
   \<Rightarrow> fiber list \<Rightarrow> world \<Rightarrow> error + (fiber list \<times> fiber list \<times> world)" where
  "reconcile_loop par index es oldFiber prevNull acc dels w =
     (if es = [] \<and> oldFiber = None then Inr (acc, dels, w)
      else if index \<noteq> 0 \<and> next_element es \<noteq> None \<and> prevNull
      then Inl (TypeError ''Cannot set properties of null (setting sibling)'')
      else reconcile_loop par (Suc index) (tl es) (next_old oldFiber)
             (new_fiber par oldFiber (next_element es) = None)
             (acc @ option_list (new_fiber par oldFiber (next_element es)))
             (dels @ option_list (removal oldFiber (next_element es)))
             (add_removal (removal oldFiber (next_element es)) w))"
  by pat_completeness auto
termination
proof (relation "measure (\<lambda>(par, index, es, oldFiber, prevNull, acc, dels, w).
                             length es + size_option size oldFiber)", goal_cases)
  case 1
  show ?case by simp
next
  case (2 par index es oldFiber prevNull acc dels w)
  then show ?case
    by (cases es; cases oldFiber; cases "the oldFiber") (auto simp: next_old_def)
qed

declare reconcile_loop.simps [simp del]

text \<open>The sibling chain made of a list of units, and back.\<close>

fun with_sibling :: "fiber \<Rightarrow> fiber option \<Rightarrow> fiber" where
  "with_sibling (Fiber d a c s dl) s' = Fiber d a c s' dl"

fun link_chain :: "fiber list \<Rightarrow> fiber option" where
  "link_chain [] = None"
| "link_chain (f # fs) = Some (with_sibling f (link_chain fs))"

fun chain_list :: "fiber option \<Rightarrow> fiber list" where
  "chain_list None = []"
| "chain_list (Some (Fiber d a c s dl)) = Fiber d a c s dl # chain_list s"

definition old_children :: "fiber \<Rightarrow> fiber option" where
  "old_children wip = (case falternate wip of None \<Rightarrow> None | Some a \<Rightarrow> fchild a)"

definition reconcileChildren ::
  "fiber \<Rightarrow> element option list \<Rightarrow> world \<Rightarrow> error + (fiber \<times> world)" where
  "reconcileChildren wip elements w =
     (let oldFiber = old_children wip;
          dels0 = (case fdeletions wip of None \<Rightarrow> [] | Some ds \<Rightarrow> ds)
      in case reconcile_loop (child_parent wip) 0 elements oldFiber True [] dels0 w of
           Inl e \<Rightarrow> Inl e
         | Inr (acc, dels, w') \<Rightarrow>
             Inr (Fiber (fdata wip) (falternate wip)
                    (if elements = [] \<and> oldFiber = None then fchild wip else link_chain acc)
                    (fsibling wip) (Some dels), w'))"

section \<open>Keyed reconciliation\<close>

text \<open>A \<open>Map\<close> key: \<open>-0\<close> is stored as \<open>+0\<close>.\<close>

fun map_key :: "jsval \<Rightarrow> jsval" where
  "map_key VNegZero = VNum 0"
| "map_key v = v"

text \<open>\<open>props?.key ?? index\<close>\<close>

definition key_or_index :: "props \<Rightarrow> nat \<Rightarrow> jsval" where
  "key_or_index p index =
     (case pkey p of
        None \<Rightarrow> VNum (int index)
      | Some v \<Rightarrow> if v = VNull \<or> v = VUndefined then VNum (int index) else map_key v)"

text \<open>A \<open>Map\<close> keeps its entries in insertion order; \<open>set\<close> on a present key keeps its place.\<close>

fun map_set :: "jsval \<Rightarrow> fiber \<Rightarrow> (jsval \<times> fiber) list \<Rightarrow> (jsval \<times> fiber) list" where
  "map_set k v [] = [(k, v)]"
| "map_set k v ((k', v') # m) = (if k' = k then (k, v) # m else (k', v') # map_set k v m)"

definition map_delete :: "jsval \<Rightarrow> (jsval \<times> fiber) list \<Rightarrow> (jsval \<times> fiber) list" where
  "map_delete k m = filter (\<lambda>(k', v). k' \<noteq> k) m"

fun build_map :: "fiber option \<Rightarrow> nat \<Rightarrow> (jsval \<times> fiber) list \<Rightarrow> (jsval \<times> fiber) list" where
  "build_map None tempIndex m = m"
| "build_map (Some (Fiber d a c s dl)) tempIndex m =
     build_map s (Suc tempIndex) (map_set (key_or_index (fprops d) tempIndex) (Fiber d a c s dl) m)"

fun keyed_loop ::
  "pinfo list \<Rightarrow> nat \<Rightarrow> element option list \<Rightarrow> (jsval \<times> fiber) list \<Rightarrow> bool \<Rightarrow> fiber list
   \<Rightarrow> error + (fiber list \<times> (jsval \<times> fiber) list)" where
  "keyed_loop par index [] m prevNull acc = Inr (acc, m)"
| "keyed_loop par index (element # es) m prevNull acc =
     (let elementKey = (case element of
                          None \<Rightarrow> VNum (int index)
                        | Some el \<Rightarrow> key_or_index (eprops el) index);
          matching = map_of m elementKey;
          same = sameType matching element;
          newFiber = new_fiber par matching element;
          m' = (if same then map_delete elementKey m else m)
      in if index \<noteq> 0 \<and> prevNull
         then Inl (TypeError ''Cannot set properties of null (setting sibling)'')
         else keyed_loop par (Suc index) es m' (newFiber = None) (acc @ option_list newFiber))"

definition reconcileChildrenWithKeys ::
  "fiber \<Rightarrow> element option list \<Rightarrow> world \<Rightarrow> error + (fiber \<times> world)" where
  "reconcileChildrenWithKeys wip elements w =
     (let oldFiber = old_children wip;
          dels0 = (case fdeletions wip of None \<Rightarrow> [] | Some ds \<Rightarrow> ds);
          oldFiberMap = build_map oldFiber 0 []
      in case keyed_loop (child_parent wip) 0 elements oldFiberMap True [] of
           Inl e \<Rightarrow> Inl e
         | Inr (acc, m) \<Rightarrow>
             (let removed = map (mark_deletion \<circ> snd) m;
                  w' = (if has_window w
                        then w\<lparr>win_deletions :=
                                 Some ((case win_deletions w of None \<Rightarrow> [] | Some ds \<Rightarrow> ds)
                                       @ removed)\<rparr>
                        else w)
              in Inr (Fiber (fdata wip) (falternate wip)
                        (if elements = [] then fchild wip else link_chain acc)
                        (fsibling wip) (Some (dels0 @ removed)), w')))"

section \<open>Host units\<close>

text \<open>\<open>createDom\<close> (vdom/updateDom.js): a new, detached node of the output tree.\<close>

definition createDom :: "world \<Rightarrow> handle \<times> world" where
  "createDom w = (dom_next w, w\<lparr>dom_kids := (dom_kids w)(dom_next w := []),
                                  dom_next := Suc (dom_next w)\<rparr>)"

definition set_dom :: "handle \<Rightarrow> fiber \<Rightarrow> fiber" where
  "set_dom h f =
     Fiber ((fdata f)\<lparr>fdom := Some h\<rparr>) (falternate f) (fchild f) (fsibling f) (fdeletions f)"

definition reusable_dom :: "fiber \<Rightarrow> handle option" where
  "reusable_dom f =
     (case falternate f of
        None \<Rightarrow> None
      | Some a \<Rightarrow>
          (case fdom (fdata a) of
             None \<Rightarrow> None
           | Some h \<Rightarrow>
               (case ftype (fdata a) of
                  None \<Rightarrow> Some h
                | Some t \<Rightarrow>
                    if t = Host [] then Some h
                    else (case ftype (fdata f) of
                            Some t' \<Rightarrow> if strict_eq_kind t t' then Some h else None
                          | None \<Rightarrow> None))))"

definition updateHostComponent :: "fiber \<Rightarrow> world \<Rightarrow> error + (fiber \<times> world)" where
  "updateHostComponent f w =
     (case (if fdom (fdata f) = None
            then (case reusable_dom f of
                    Some h \<Rightarrow> (set_dom h f, w)
                  | None \<Rightarrow> (case createDom w of (h, w1) \<Rightarrow> (set_dom h f, w1)))
            else (f, w)) of
        (f1, w1) \<Rightarrow> reconcileChildren f1 (pchildren (fprops (fdata f1))) w1)"


section \<open>The hook runtime (hooks/hookUtils.js)\<close>

definition getCurrentFiber :: "world \<Rightarrow> fiber option" where
  "getCurrentFiber w =
     (if has_window w \<and> win_wipFiber w \<noteq> None then win_wipFiber w else wipFiber w)"

text \<open>\<open>getHookIndex() || 0\<close> and \<open>window.minireact?.hookIndex || 0\<close>.\<close>

definition getCurrentHookIndex :: "world \<Rightarrow> nat" where
  "getCurrentHookIndex w =
     (if \<not> has_window w
      then (case hookIndex w of None \<Rightarrow> 0 | Some i \<Rightarrow> i)
      else (case win_hookIndex w of None \<Rightarrow> 0 | Some i \<Rightarrow> i))"

definition incrementHookIndex :: "world \<Rightarrow> world" where
  "incrementHookIndex w =
     (if \<not> has_window w
      then w\<lparr>hookIndex := Some (case hookIndex w of None \<Rightarrow> 1 | Some i \<Rightarrow> Suc i)\<rparr>
      else w\<lparr>win_hookIndex := Some (case win_hookIndex w of None \<Rightarrow> 1 | Some i \<Rightarrow> Suc i)\<rparr>)"

definition validateHookCall :: "string \<Rightarrow> world \<Rightarrow> error + unit" where
  "validateHookCall hookName w =
     (case getCurrentFiber w of
        None \<Rightarrow> Inl (Error (hookName @ '': must be called within a component''))
      | Some fiber \<Rightarrow> Inr ())"

definition getPreviousHook :: "fiber \<Rightarrow> nat \<Rightarrow> hook option" where
  "getPreviousHook fiber index = old_hook_at (falternate fiber) index"

text \<open>
  The current work unit is an object that the hooks mutate; the mutated object is written
  back to the variable that \<open>getCurrentFiber\<close> reads.
\<close>

definition setCurrentFiber :: "fiber \<Rightarrow> world \<Rightarrow> world" where
  "setCurrentFiber f w =
     (if has_window w \<and> win_wipFiber w \<noteq> None then w\<lparr>win_wipFiber := Some f\<rparr>
      else w\<lparr>wipFiber := Some f\<rparr>)"

definition set_hooks :: "hook list \<Rightarrow> fiber \<Rightarrow> fiber" where
  "set_hooks hs f = Fiber ((fdata f)\<lparr>fhooks := Some hs\<rparr>) (falternate f) (fchild f) (fsibling f) (fdeletions f)"

text \<open>\<open>wipFiber.hooks.push(hook)\<close>; \<open>hooks\<close> must be an array.\<close>

definition push_hook :: "hook \<Rightarrow> fiber \<Rightarrow> world \<Rightarrow> error + world" where
  "push_hook h f w =
     (case fhooks (fdata f) of
        None \<Rightarrow> Inl (TypeError ''Cannot read properties of undefined (reading push)'')
      | Some hs \<Rightarrow> Inr (setCurrentFiber (set_hooks (hs @ [h]) f) w))"

text \<open>\<open>fiber.hooks[index] = hook\<close>: an assignment beyond the end leaves holes.\<close>

definition array_set :: "hook list \<Rightarrow> nat \<Rightarrow> hook \<Rightarrow> hook list" where
  "array_set hs i h =
     (if i < length hs then hs[i := h] else hs @ replicate (i - length hs) Hole @ [h])"

text \<open>
  \<open>performUnitOfWork\<close> makes the unit the current one before it is processed.
\<close>

definition enter :: "fiber \<Rightarrow> world \<Rightarrow> world" where
  "enter f w =
     (let w1 = w\<lparr>wipFiber := Some f, hookIndex := Some 0\<rparr>
      in if has_window w1 then w1\<lparr>win_wipFiber := Some f, win_hookIndex := Some 0\<rparr> else w1)"

section \<open>String conversion and hook keys\<close>

definition digit_char :: "nat \<Rightarrow> char" where
  "digit_char n = ''0123456789'' ! n"

function show_nat :: "nat \<Rightarrow> string" where
  "show_nat n = (if n < 10 then [digit_char n] else show_nat (n div 10) @ [digit_char (n mod 10)])"
  by pat_completeness auto
termination
  by (relation "measure id") auto

declare show_nat.simps [simp del]

text \<open>\<open>type?.name || type?.toString() || 'anonymous'\<close>\<close>

fun type_label :: "kind option \<Rightarrow> string" where
  "type_label None = ''anonymous''"
| "type_label (Some (Host s)) = (if s \<noteq> [] then s else ''anonymous'')"
| "type_label (Some (Func i name src)) =
     (if name \<noteq> [] then name else if src \<noteq> [] then src else ''anonymous'')"

definition hook_key :: "kind option \<Rightarrow> nat \<Rightarrow> string" where
  "hook_key t index = type_label t @ ''_'' @ show_nat index"

section \<open>useState (hooks/useState.js)\<close>

text \<open>The argument of \<open>useState\<close>: a value, or a function (given by the value it returns).\<close>

datatype initial = InitVal jsval | InitFn jsval

fun init_value :: "initial \<Rightarrow> jsval" where
  "init_value (InitVal v) = v"
| "init_value (InitFn v) = v"

definition drain :: "jsval \<Rightarrow> action list \<Rightarrow> jsval" where
  "drain s actions = foldl (\<lambda>currentState a. apply_action a currentState) s actions"

definition useState :: "initial \<Rightarrow> world \<Rightarrow> error + ((jsval \<times> string) \<times> world)" where
  "useState initial w =
     (case validateHookCall ''useState'' w of
        Inl e \<Rightarrow> Inl e
      | Inr _ \<Rightarrow>
          (case getCurrentFiber w of
             None \<Rightarrow> Inl (TypeError ''Cannot read properties of null'')
           | Some cur \<Rightarrow>
               (let index = getCurrentHookIndex w;
                    hookKey = hook_key (ftype (fdata cur)) index;
                    w1 = (if updateQueues w hookKey = None
                          then w\<lparr>updateQueues := (updateQueues w)(hookKey \<mapsto> [])\<rparr> else w);
                    queue = (case updateQueues w1 hookKey of None \<Rightarrow> [] | Some q \<Rightarrow> q);
                    s0 = (case hookStates w1 hookKey of
                            Some v \<Rightarrow> v
                          | None \<Rightarrow> init_value initial);
                    currentState = drain s0 queue;
                    w2 = w1\<lparr>updateQueues := (updateQueues w1)(hookKey \<mapsto> []),
                           hookStates := (hookStates w1)(hookKey \<mapsto> currentState)\<rparr>
                in case push_hook (StateHook currentState hookKey) cur w2 of
                     Inl e \<Rightarrow> Inl e
                   | Inr w3 \<Rightarrow> Inr ((currentState, hookKey), incrementHookIndex w3))))"

section \<open>useReducer (hooks/useReducer.js)\<close>

definition useReducer ::
  "(jsval \<Rightarrow> jsval \<Rightarrow> jsval) \<Rightarrow> jsval \<Rightarrow> (jsval \<Rightarrow> jsval) option \<Rightarrow> world
   \<Rightarrow> error + ((jsval \<times> string) \<times> world)" where
  "useReducer reducer initialState init w =
     (case validateHookCall ''useReducer'' w of
        Inl e \<Rightarrow> Inl e
      | Inr _ \<Rightarrow>
          (case getCurrentFiber w of
             None \<Rightarrow> Inl (TypeError ''Cannot read properties of null'')
           | Some cur \<Rightarrow>
               (let index = getCurrentHookIndex w;
                    hookKey = hook_key (ftype (fdata cur)) index;
                    w1 = (if actionQueues w hookKey = None
                          then w\<lparr>actionQueues := (actionQueues w)(hookKey \<mapsto> [])\<rparr> else w);
                    queue = (case actionQueues w1 hookKey of None \<Rightarrow> [] | Some q \<Rightarrow> q);
                    s0 = (case reducerStates w1 hookKey of
                            Some v \<Rightarrow> v
                          | None \<Rightarrow> (case init of Some i \<Rightarrow> i initialState | None \<Rightarrow> initialState));
                    currentState = foldl reducer s0 queue;
                    w2 = w1\<lparr>actionQueues := (actionQueues w1)(hookKey \<mapsto> []),
                           reducerStates := (reducerStates w1)(hookKey \<mapsto> currentState),
                           dispatchers := insert hookKey (dispatchers w1)\<rparr>;
                    hs = (case fhooks (fdata cur) of None \<Rightarrow> [] | Some hs \<Rightarrow> hs);
                    w3 = setCurrentFiber
                           (set_hooks (array_set hs index (ReducerHook currentState hookKey)) cur) w2
                in Inr ((currentState, hookKey), incrementHookIndex w3))))"

section \<open>useEffect (hooks/useEffect.js)\<close>

definition areDependenciesChanged :: "deps \<Rightarrow> deps \<Rightarrow> bool" where
  "areDependenciesChanged ds oldDeps =
     (case (ds, oldDeps) of
        (DArr d, DArr od) \<Rightarrow>
          (if length d \<noteq> length od then True
           else list_ex (\<lambda>(dep, o'). \<not> object_is dep o') (zip d od))
      | _ \<Rightarrow> True)"

text \<open>
  \<open>effect\<close> is \<open>None\<close> when the first argument is not a function; \<open>ds\<close> is
  \<open>DUndefined\<close> when the second argument is omitted.
\<close>

definition useEffect :: "effect_fn option \<Rightarrow> deps \<Rightarrow> world \<Rightarrow> error + world" where
  "useEffect effect ds w =
     (case effect of
        None \<Rightarrow> Inl (Error ''useEffect: effect must be a function'')
      | Some f \<Rightarrow>
          (case validateHookCall ''useEffect'' w of
             Inl e \<Rightarrow> Inl e
           | Inr _ \<Rightarrow>
               (case getCurrentFiber w of
                  None \<Rightarrow> Inl (TypeError ''Cannot read properties of null'')
                | Some cur \<Rightarrow>
                    (let index = getCurrentHookIndex w;
                         oldHook = getPreviousHook cur index;
                         hasChanged = (if ds = DUndefined then True
                                       else (case oldHook of
                                               None \<Rightarrow> True
                                             | Some oh \<Rightarrow> areDependenciesChanged ds (hook_deps oh)));
                         hook = EffectHook (Some f)
                                  (case oldHook of None \<Rightarrow> None | Some oh \<Rightarrow> hook_cleanup oh)
                                  (if deps_truthy ds then ds else DNull) hasChanged
                     in case push_hook hook cur w of
                          Inl e \<Rightarrow> Inl e
                        | Inr w1 \<Rightarrow> Inr (incrementHookIndex w1)))))"

section \<open>useMemo and useCallback (hooks/useMemo.js, hooks/useCallback.js)\<close>

text \<open>\<open>hooks?.[hookIndex]\<close> where the index may be \<open>null\<close> or \<open>undefined\<close>.\<close>

definition old_hook_at_opt :: "fiber option \<Rightarrow> nat option \<Rightarrow> hook option" where
  "old_hook_at_opt alt index = (case index of None \<Rightarrow> None | Some i \<Rightarrow> old_hook_at alt i)"

definition memo_hasChanged :: "hook option \<Rightarrow> deps \<Rightarrow> bool" where
  "memo_hasChanged oldHook ds =
     (case oldHook of
        None \<Rightarrow> True
      | Some oh \<Rightarrow>
          if ds \<noteq> DUndefined then
            (case (ds, hook_deps oh) of
               (DArr d, DArr od) \<Rightarrow>
                 if length d = length od
                 then list_ex (\<lambda>(dep, o'). \<not> object_is dep o') (zip d od) else True
             | _ \<Rightarrow> True)
          else if hook_deps oh = DUndefined then False else True)"

text \<open>
  \<open>compute\<close> is \<open>None\<close> when the first argument is not a function, and otherwise the
  value that calling it returns.
\<close>

definition useMemo :: "jsval option \<Rightarrow> deps \<Rightarrow> world \<Rightarrow> error + (jsval \<times> world)" where
  "useMemo compute ds w =
     (case compute of
        None \<Rightarrow> Inl (TypeError ''useMemo: first argument must be a function'')
      | Some result \<Rightarrow>
          (case (if has_window w then win_wipFiber w else wipFiber w) of
             None \<Rightarrow> Inl (Error ''useMemo: must be called within a component'')
           | Some cur \<Rightarrow>
               (let index = (if has_window w then win_hookIndex w else hookIndex w);
                    hs = (case fhooks (fdata cur) of None \<Rightarrow> [] | Some hs \<Rightarrow> hs);
                    oldHook = old_hook_at_opt (falternate cur) index;
                    hasChanged = memo_hasChanged oldHook ds;
                    v = (if hasChanged then result
                         else (case oldHook of None \<Rightarrow> VUndefined | Some oh \<Rightarrow> hook_value oh));
                    cur' = set_hooks (hs @ [MemoHook v ds]) cur;
                    w1 = (if has_window w then w\<lparr>win_wipFiber := Some cur'\<rparr>
                          else w\<lparr>wipFiber := Some cur'\<rparr>);
                    w2 = (if has_window w
                          then w1\<lparr>win_hookIndex := map_option Suc (win_hookIndex w1)\<rparr>
                          else w1\<lparr>hookIndex := Some (case hookIndex w1 of None \<Rightarrow> 1 | Some i \<Rightarrow> Suc i)\<rparr>)
                in Inr (v, w2))))"

text \<open>\<open>useCallback(callback, deps) = useMemo(() => callback, deps)\<close>\<close>

definition useCallback :: "jsval \<Rightarrow> deps \<Rightarrow> world \<Rightarrow> error + (jsval \<times> world)" where
  "useCallback callback ds w = useMemo (Some callback) ds w"

section \<open>useRef (hooks/useRef.js)\<close>

text \<open>\<open>hook.ref\<close> of a hook object of any variant.\<close>

fun hook_ref :: "hook \<Rightarrow> jsval" where
  "hook_ref (RefHook r) = VObj r"
| "hook_ref _ = VUndefined"

definition useRef :: "jsval \<Rightarrow> world \<Rightarrow> error + (jsval \<times> world)" where
  "useRef initialValue w =
     (case validateHookCall ''useRef'' w of
        Inl e \<Rightarrow> Inl e
      | Inr _ \<Rightarrow>
          (case getCurrentFiber w of
             None \<Rightarrow> Inl (TypeError ''Cannot read properties of null'')
           | Some cur \<Rightarrow>
               (let index = getCurrentHookIndex w;
                    previousHook = getPreviousHook cur index;
                    (hook, w1) = (case previousHook of
                                    Some ph \<Rightarrow> (ph, w)
                                  | None \<Rightarrow>
                                      (RefHook (next_ref w),
                                       w\<lparr>ref_cells := (ref_cells w)(next_ref w := initialValue),
                                         next_ref := Suc (next_ref w)\<rparr>));
                    hs = (case fhooks (fdata cur) of None \<Rightarrow> [] | Some hs \<Rightarrow> hs);
                    w2 = setCurrentFiber (set_hooks (array_set hs index hook) cur) w1
                in Inr (hook_ref hook, incrementHookIndex w2))))"

section \<open>useContext (hooks/useContext.js)\<close>

text \<open>
  The argument of \<open>useContext\<close>: an object made by \<open>createContext\<close> (its \<open>_contextId\<close>
  and \<open>_defaultValue\<close>), or anything else.
\<close>

datatype context_arg = Context nat jsval | NotAContext

text \<open>The walk up the \<open>parent\<close> chain, starting at the unit itself.\<close>

fun find_provider :: "nat \<Rightarrow> (nat \<times> jsval) list list \<Rightarrow> jsval option" where
  "find_provider cid [] = None"
| "find_provider cid (providers # up) =
     (case map_of providers cid of
        Some v \<Rightarrow> Some v
      | None \<Rightarrow> find_provider cid up)"

definition useContext :: "context_arg \<Rightarrow> world \<Rightarrow> error + (jsval \<times> world)" where
  "useContext context w =
     (case validateHookCall ''useContext'' w of
        Inl e \<Rightarrow> Inl e
      | Inr _ \<Rightarrow>
          (case context of
             NotAContext \<Rightarrow> Inl (Error ''useContext must be called with a valid context object'')
           | Context cid defaultValue \<Rightarrow>
               (case getCurrentFiber w of
                  None \<Rightarrow> Inl (Error ''useContext: must be called within a component'')
                | Some cur \<Rightarrow>
                    (let hs = (case fhooks (fdata cur) of None \<Rightarrow> [] | Some hs \<Rightarrow> hs);
                         contextValue =
                           (case find_provider cid (fctx (fdata cur) # map p_ctx (fparent (fdata cur))) of
                              Some v \<Rightarrow> v
                            | None \<Rightarrow> defaultValue);
                         w1 = setCurrentFiber (set_hooks (hs @ [ContextHook cid contextValue]) cur) w
                     in Inr (contextValue, incrementHookIndex w1)))))"


section \<open>Deletions and placements (core/commit.js)\<close>

fun child_of :: "fiber option \<Rightarrow> fiber option" where
  "child_of None = None"
| "child_of (Some f) = fchild f"

fun sibling_of :: "fiber option \<Rightarrow> fiber option" where
  "sibling_of None = None"
| "sibling_of (Some f) = fsibling f"

lemma cleanupEffects_size:
  "size_option size (fst (cleanupEffects t w)) = size_option size t"
proof (induction t w rule: cleanupEffects.induct)
  case (1 w)
  show ?case by simp
next
  case (2 d a c s dl w)
  obtain h1 w1 where s1: "cleanup_unit (fhooks d) w = (h1, w1)"
    by (cases "cleanup_unit (fhooks d) w")
  obtain c' w2 where s2: "cleanupEffects c w1 = (c', w2)" by (cases "cleanupEffects c w1")
  obtain s' w3 where s3: "cleanupEffects s w2 = (s', w3)" by (cases "cleanupEffects s w2")
  have "size_option size c' = size_option size c"
    using "2.IH"(1)[OF s1[symmetric]] s2 by simp
  moreover have "size_option size s' = size_option size s"
    using "2.IH"(2)[OF s1[symmetric] s2[symmetric]] s3 by simp
  ultimately show ?case using s1 s2 s3 by simp
qed

lemma size_child_of: "t \<noteq> None \<Longrightarrow> size_option size (child_of t) < size_option size t"
  by (cases t; cases "the t") auto

lemma size_sibling_of: "t \<noteq> None \<Longrightarrow> size_option size (sibling_of t) < size_option size t"
  by (cases t; cases "the t") auto

text \<open>
  \<open>commitDeletion\<close>. \<open>cleanupEffects\<close> clears the \<open>cleanup\<close> fields of the removed units;
  the walk goes on in the units as it left them.
\<close>

function commitDeletion :: "fiber option \<Rightarrow> handle option \<Rightarrow> world \<Rightarrow> error + world" where
  "commitDeletion None domParent w = Inr w"
| "commitDeletion (Some f) domParent w =
     (case fdom (fdata f) of
        Some d \<Rightarrow>
          (case domParent of
             None \<Rightarrow> commitDeletion (fsibling f) domParent w
           | Some p \<Rightarrow>
               if dom_contains w p d
               then (case cleanupEffects (Some f) w of
                       (f', w1) \<Rightarrow>
                         (case removeChild p d w1 of
                            Inl e \<Rightarrow> Inl e
                          | Inr w2 \<Rightarrow> commitDeletion (sibling_of f') domParent w2))
               else commitDeletion (fsibling f) domParent w)
      | None \<Rightarrow>
          (case cleanupEffects (Some f) w of
             (f', w1) \<Rightarrow>
               (case commitDeletion (child_of f') domParent w1 of
                  Inl e \<Rightarrow> Inl e
                | Inr w2 \<Rightarrow> commitDeletion (sibling_of f') domParent w2)))"
  by pat_completeness auto
termination
proof -
  have td: "size_option size (sibling_of f') < Suc (size f)
            \<and> size_option size (child_of f') < Suc (size f)"
    if "(f', w1) = cleanupEffects (Some f) w" for f f' w w1
  proof -
    have e: "size_option size f' = size_option size (Some f)"
      using cleanupEffects_size[of "Some f" w] that[symmetric] by simp
    then have "f' \<noteq> None" by (cases f'; cases f) auto
    then show ?thesis using size_sibling_of[of f'] size_child_of[of f'] e by simp
  qed
  have ts: "size_option size (fsibling f) < Suc (size f)" for f :: fiber
    by (cases f) simp
  show ?thesis
    by (relation "measure (\<lambda>(t, p, w). size_option size t)")
       (auto simp del: cleanupEffects.simps simp: ts dest: td)
qed

declare commitDeletion.simps [simp del]

text \<open>
  The walk up the \<open>parent\<close> chain to the nearest unit that owns an output node.
\<close>

fun find_dom_parent :: "pinfo list \<Rightarrow> handle option" where
  "find_dom_parent [] = None"
| "find_dom_parent (p # ps) = (case p_dom p of Some h \<Rightarrow> Some h | None \<Rightarrow> find_dom_parent ps)"

text \<open>
  \<open>commitWork\<close>. Attributes and listeners of output nodes are not part of the state, so
  \<open>updateDom\<close> leaves it as it is. The reconciler never tags a unit of the new tree
  DELETION; for such a unit, what \<open>commitDeletion\<close> does to its hooks is not carried
  into the tree.
\<close>

fun commitWork :: "fiber option \<Rightarrow> world \<Rightarrow> error + world" where
  "commitWork None w = Inr w"
| "commitWork (Some (Fiber d a c s dl)) w =
     (if feffectTag d = Some DELETION
      then commitDeletion (Some (Fiber d a c s dl)) (find_dom_parent (fparent d)) w
      else
        (case (if feffectTag d = Some PLACEMENT \<and> fdom d \<noteq> None
               then (case find_dom_parent (fparent d) of
                       None \<Rightarrow> Inl (TypeError ''Cannot read properties of undefined (reading appendChild)'')
                     | Some p \<Rightarrow> (case fdom d of Some h \<Rightarrow> Inr (appendChild p h w) | None \<Rightarrow> Inr w))
               else if feffectTag d = Some UPDATE \<and> fdom d \<noteq> None
               then (case a of
                       None \<Rightarrow> Inl (TypeError ''Cannot read properties of null (reading props)'')
                     | Some alt \<Rightarrow> Inr w)
               else Inr w) of
           Inl e \<Rightarrow> Inl e
         | Inr w1 \<Rightarrow>
             (case commitWork c w1 of
                Inl e \<Rightarrow> Inl e
              | Inr w2 \<Rightarrow> commitWork s w2)))"

text \<open>
  The \<open>forEach\<close> over the deletion list in \<open>commitRoot\<close>. Each listed unit is taken as
  it was listed. (In the code a listed unit that is also the \<open>sibling\<close> of an earlier
  listed one has had its cleanups cleared by the time its turn comes; a list with one
  entry, as an unmount gives, has no such sharing.)
\<close>

fun commit_deletions :: "fiber list \<Rightarrow> world \<Rightarrow> error + world" where
  "commit_deletions [] w = Inr w"
| "commit_deletions (deletion # ds) w =
     (case commitDeletion (Some deletion) (find_dom_parent (fparent (fdata deletion))) w of
        Inl e \<Rightarrow> Inl e
      | Inr w1 \<Rightarrow> commit_deletions ds w1)"

definition commitRoot :: "fiber \<Rightarrow> fiber list \<Rightarrow> world \<Rightarrow> error + world" where
  "commitRoot root deletions w =
     (case commit_deletions deletions w of
        Inl e \<Rightarrow> Inl e
      | Inr w1 \<Rightarrow> commitWork (fchild root) w1)"

section \<open>Function components\<close>

text \<open>
  A component function is user code: given the props, it calls hooks, which act on the
  state, and returns its children (a single element or an array), or throws.
  \<open>comps\<close> gives the body of each function by its reference.
\<close>

datatype render_result = Single "element option" | Array "element option list"

type_synonym component = "props \<Rightarrow> world \<Rightarrow> error + (render_result \<times> world)"

fun children_of_result :: "render_result \<Rightarrow> element option list" where
  "children_of_result (Single e) = [e]"
| "children_of_result (Array es) = es"

text \<open>
  \<open>updateFunctionComponent\<close> for a function component (class components, the legacy
  wrapper, are left out). The hooks act on the current unit, which is this unit.
\<close>

definition updateFunctionComponent ::
  "(nat \<Rightarrow> component) \<Rightarrow> fiber \<Rightarrow> world \<Rightarrow> error + (fiber \<times> world)" where
  "updateFunctionComponent comps f w =
     (case ftype (fdata f) of
        Some (Func i name src) \<Rightarrow>
          (let f1 = set_hooks [] f;
               w1 = (enter f1 w)\<lparr>trace := trace w @ [RenderRun i]\<rparr>
           in case comps i (fprops (fdata f1)) w1 of
                Inl e \<Rightarrow> Inl e
              | Inr (result, w2) \<Rightarrow>
                  (let f2 = (case getCurrentFiber w2 of Some cur \<Rightarrow> cur | None \<Rightarrow> f1)
                   in reconcileChildren f2 (children_of_result result) w2))
      | _ \<Rightarrow> Inl (TypeError ''fiber.type is not a function''))"

section \<open>The work loop (core/fiber.js)\<close>

text \<open>A unit inside a root's tree is addressed by the steps that lead to it.\<close>

fun get_at :: "step list \<Rightarrow> fiber \<Rightarrow> fiber option" where
  "get_at [] f = Some f"
| "get_at (Child # p) f = (case fchild f of None \<Rightarrow> None | Some c \<Rightarrow> get_at p c)"
| "get_at (Sibling # p) f = (case fsibling f of None \<Rightarrow> None | Some s \<Rightarrow> get_at p s)"

fun put_at :: "step list \<Rightarrow> fiber \<Rightarrow> fiber \<Rightarrow> fiber" where
  "put_at [] g f = g"
| "put_at (Child # p) g (Fiber d a c s dl) =
     Fiber d a (case c of None \<Rightarrow> None | Some c' \<Rightarrow> Some (put_at p g c')) s dl"
| "put_at (Sibling # p) g (Fiber d a c s dl) =
     Fiber d a c (case s of None \<Rightarrow> None | Some s' \<Rightarrow> Some (put_at p g s')) dl"

text \<open>The path of a unit's parent: none for the root.\<close>

definition parent_path :: "step list \<Rightarrow> step list option" where
  "parent_path p =
     (case dropWhile (\<lambda>s. s = Sibling) (rev p) of
        [] \<Rightarrow> None
      | _ # q \<Rightarrow> Some (rev q))"

text \<open>
  The end of \<open>performUnitOfWork\<close>: the next unit after a unit without child is the
  sibling of the nearest unit, on the way up, that has one.
\<close>

function next_up :: "fiber \<Rightarrow> step list \<Rightarrow> step list option" where
  "next_up root p =
     (case get_at p root of
        None \<Rightarrow> None
      | Some nextFiber \<Rightarrow>
          if fsibling nextFiber \<noteq> None then Some (p @ [Sibling])
          else (case parent_path p of
                  None \<Rightarrow> None
                | Some q \<Rightarrow> next_up root q))"
  by pat_completeness auto
termination
proof (relation "measure (\<lambda>(root, p). length p)", goal_cases)
  case 1
  show ?case by simp
next
  case (2 root p nextFiber q)
  have "length (dropWhile (\<lambda>s. s = Sibling) (rev p)) \<le> length p"
    using length_dropWhile_le[of "\<lambda>s. s = Sibling" "rev p"] by simp
  then show ?case using 2(3)
    by (auto simp: parent_path_def split: list.splits)
qed

declare next_up.simps [simp del]

text \<open>A root's \<open>alternate\<close> is an address; this is the root as the reconciler reads it.\<close>

definition root_view :: "world \<Rightarrow> nat \<Rightarrow> fiber" where
  "root_view w a =
     (let cell = roots w a;
          f = rc_fiber cell
      in Fiber (fdata f)
           (case rc_alt cell of None \<Rightarrow> None | Some b \<Rightarrow> Some (rc_fiber (roots w b)))
           (fchild f) (fsibling f) (fdeletions f))"

definition store_root :: "nat \<Rightarrow> fiber \<Rightarrow> world \<Rightarrow> world" where
  "store_root a f w =
     w\<lparr>roots := (roots w)(a := (roots w a)\<lparr>rc_fiber :=
          Fiber (fdata f) None (fchild f) (fsibling f) (fdeletions f)\<rparr>)\<rparr>"

definition is_function :: "kind option \<Rightarrow> bool" where
  "is_function t = (case t of Some (Func i name src) \<Rightarrow> True | _ \<Rightarrow> False)"

text \<open>
  \<open>nextUnitOfWork = performUnitOfWork(nextUnitOfWork)\<close> for the unit at \<open>(a, p)\<close>.
  The current-unit variable refers to the processed unit; it is left holding the unit as
  it is when its processing ends.
\<close>

definition performUnitOfWork ::
  "(nat \<Rightarrow> component) \<Rightarrow> nat \<Rightarrow> step list \<Rightarrow> world \<Rightarrow> error + world" where
  "performUnitOfWork comps a p w =
     (case get_at p (root_view w a) of
        None \<Rightarrow> Inl (TypeError ''no such unit'')
      | Some f \<Rightarrow>
          (let w1 = enter f w
           in case (if is_function (ftype (fdata f))
                    then updateFunctionComponent comps f w1
                    else updateHostComponent f w1) of
                Inl e \<Rightarrow> Inl e
              | Inr (f', w2) \<Rightarrow>
                  (let root' = put_at p f' (root_view w2 a);
                       w3 = store_root a root' (setCurrentFiber f' w2);
                       next = (if fchild f' \<noteq> None then Some (p @ [Child])
                               else next_up root' p)
                   in Inr (w3\<lparr>nextUnitOfWork := map_option (\<lambda>q. (a, q)) next\<rparr>))))"

text \<open>
  The \<open>while\<close> loop of \<open>workLoop\<close>. \<open>deadline\<close> lists the successive values of
  \<open>deadline.timeRemaining() < 1\<close>; past its end the host has no time left.
\<close>

fun render_loop :: "(nat \<Rightarrow> component) \<Rightarrow> bool list \<Rightarrow> world \<Rightarrow> error + world" where
  "render_loop comps deadline w =
     (case nextUnitOfWork w of
        None \<Rightarrow> Inr w
      | Some (a, p) \<Rightarrow>
          (case performUnitOfWork comps a p w of
             Inl e \<Rightarrow> Inl e
           | Inr w1 \<Rightarrow>
               (case deadline of
                  [] \<Rightarrow> Inr w1
                | shouldYield # rest \<Rightarrow>
                    if shouldYield then Inr w1 else render_loop comps rest w1)))"

text \<open>
  The commit block of \<open>workLoop\<close>, up to the call of \<open>runEffects\<close>: the state in which the
  effects start.
\<close>

definition commit_and_swap :: "nat \<Rightarrow> world \<Rightarrow> error + world" where
  "commit_and_swap r w =
     (case commitRoot (root_view w r) (pending_deletions w) w of
        Inl e \<Rightarrow> Inl e
      | Inr w1 \<Rightarrow>
          (let w2 = w1\<lparr>currentRoot := Some r, wipRoot := None, globalDeletions := []\<rparr>
           in Inr (if has_window w2 then w2\<lparr>win_deletions := None\<rparr> else w2)))"

text \<open>\<open>runEffects(currentRoot)\<close>: the pass mutates the hooks of the committed tree.\<close>

definition run_root_effects :: "nat \<Rightarrow> world \<Rightarrow> world" where
  "run_root_effects r w =
     (case runEffects (Some (root_view w r)) w of
        (Some root', w1) \<Rightarrow> store_root r root' w1
      | (None, w1) \<Rightarrow> w1)"

definition reschedule :: "world \<Rightarrow> world" where
  "reschedule w =
     (if nextUnitOfWork w \<noteq> None \<or> wipRoot w \<noteq> None
      then w\<lparr>idleCallbacks := Suc (idleCallbacks w)\<rparr>
      else w\<lparr>isWorkLoopRunning := False\<rparr>)"

definition workLoop :: "(nat \<Rightarrow> component) \<Rightarrow> bool list \<Rightarrow> world \<Rightarrow> error + world" where
  "workLoop comps deadline w =
     (case render_loop comps deadline w of
        Inl e \<Rightarrow> Inl e
      | Inr w1 \<Rightarrow>
          (case (if nextUnitOfWork w1 = None
                 then (case wipRoot w1 of
                         Some r \<Rightarrow>
                           (case commit_and_swap r w1 of
                              Inl e \<Rightarrow> Inl e
                            | Inr w2 \<Rightarrow> Inr (run_root_effects r w2))
                       | None \<Rightarrow> Inr w1)
                 else Inr w1) of
             Inl e \<Rightarrow> Inl e
           | Inr w3 \<Rightarrow> Inr (reschedule w3)))"

text \<open>The host runs one pending idle callback.\<close>

definition run_idle_callback ::
  "(nat \<Rightarrow> component) \<Rightarrow> bool list \<Rightarrow> world \<Rightarrow> error + world" where
  "run_idle_callback comps deadline w =
     (if idleCallbacks w = 0 then Inr w
      else workLoop comps deadline (w\<lparr>idleCallbacks := idleCallbacks w - 1\<rparr>))"

section \<open>The root entry (core/fiber.js)\<close>

definition render :: "element option \<Rightarrow> handle \<Rightarrow> world \<Rightarrow> world" where
  "render element container w =
     (let w1 = (if rootContainer w \<noteq> Some container
                then w\<lparr>currentRoot := None, wipRoot := None, nextUnitOfWork := None,
                       wipFiber := None, hookIndex := None, isWorkLoopRunning := False,
                       dom_kids := (dom_kids w)(container := []),
                       rootContainer := Some container\<rparr>
                else w);
          n = next_root w1;
          cell = \<lparr>rc_fiber = root_fiber (Some container) (Props None [] [element]),
                  rc_alt = currentRoot w1\<rparr>;
          w2 = w1\<lparr>roots := (roots w1)(n := cell), next_root := Suc n, wipRoot := Some n,
                 globalDeletions := []\<rparr>;
          w3 = (if has_window w2 then w2\<lparr>win_deletions := Some []\<rparr> else w2)
      in startWorkLoop (w3\<lparr>nextUnitOfWork := Some (n, [])\<rparr>))"

section \<open>Error messages\<close>

fun error_message :: "error \<Rightarrow> string" where
  "error_message (Error m) = m"
| "error_message (TypeError m) = m"
| "error_message NotFoundError = ''NotFoundError''"

text \<open>\<open>name\<close> occurs in \<open>msg\<close>.\<close>

definition mentions :: "string \<Rightarrow> string \<Rightarrow> bool" where
  "mentions name msg = list_ex (\<lambda>i. take (length name) (drop i msg) = name) [0..<Suc (length msg)]"

definition throws_naming :: "string \<Rightarrow> error + 'a \<Rightarrow> bool" where
  "throws_naming name r = (case r of Inl e \<Rightarrow> mentions name (error_message e) | Inr _ \<Rightarrow> False)"

section \<open>Initial state and examples\<close>

definition init_world :: world where
  "init_world = \<lparr>has_window = True, nextUnitOfWork = None, currentRoot = None, wipRoot = None,
     wipFiber = None, hookIndex = None, rootContainer = None, isWorkLoopRunning = False,
     globalDeletions = [], win_deletions = None, win_wipFiber = None, win_hookIndex = None,
     roots = (\<lambda>_. \<lparr>rc_fiber = root_fiber None (Props None [] []), rc_alt = None\<rparr>),
     next_root = 0, idleCallbacks = 0, updateQueues = Map.empty, hookStates = Map.empty,
     actionQueues = Map.empty, reducerStates = Map.empty, dispatchers = {},
     ref_cells = (\<lambda>_. VUndefined), next_ref = 0, dom_kids = (\<lambda>_. []), dom_next = 0, console = [], trace = []\<rparr>"

section \<open>Which callbacks an effect pass invokes, and in which order\<close>

definition due_cleanup :: "hook \<Rightarrow> fiber option \<Rightarrow> nat \<Rightarrow> (nat \<times> cleanup_fn) list" where
  "due_cleanup h alt index =
     (case h of
        EffectHook e c d hc \<Rightarrow>
          (case shouldRunCleanup (old_hook_at alt index) d of
             Some oc \<Rightarrow> [(index, oc)]
           | None \<Rightarrow> [])
      | _ \<Rightarrow> [])"

fun due_cleanups :: "hook list \<Rightarrow> fiber option \<Rightarrow> nat \<Rightarrow> (nat \<times> cleanup_fn) list" where
  "due_cleanups [] alt index = []"
| "due_cleanups (h # hs) alt index = due_cleanup h alt index @ due_cleanups hs alt (Suc index)"

definition due_effect :: "hook \<Rightarrow> fiber option \<Rightarrow> nat \<Rightarrow> (nat \<times> effect_fn) list" where
  "due_effect h alt index =
     (case h of
        EffectHook (Some f) c d hc \<Rightarrow>
          (if shouldRunEffect (old_hook_at alt index) d then [(index, f)] else [])
      | _ \<Rightarrow> [])"

fun due_effects :: "hook list \<Rightarrow> fiber option \<Rightarrow> nat \<Rightarrow> (nat \<times> effect_fn) list" where
  "due_effects [] alt index = []"
| "due_effects (h # hs) alt index = due_effect h alt index @ due_effects hs alt (Suc index)"

definition cleanup_events :: "(nat \<times> cleanup_fn) list \<Rightarrow> event list" where
  "cleanup_events cs = map (\<lambda>(i, c). CleanupRun (cl_id c)) cs"

definition effect_events :: "(nat \<times> effect_fn) list \<Rightarrow> event list" where
  "effect_events fs = map (\<lambda>(i, f). EffectRun (ef_id f)) fs"

definition unit_order :: "hook list option \<Rightarrow> fiber option \<Rightarrow> event list" where
  "unit_order hooks alt =
     (case hooks of
        None \<Rightarrow> []
      | Some hs \<Rightarrow> cleanup_events (due_cleanups hs alt 0) @ effect_events (due_effects hs alt 0))"

fun effect_order :: "fiber option \<Rightarrow> event list" where
  "effect_order None = []"
| "effect_order (Some (Fiber d a c s dl)) =
     unit_order (fhooks d) a @ effect_order c @ effect_order s"

fun is_cleanup :: "event \<Rightarrow> bool" where
  "is_cleanup (CleanupRun _) = True"
| "is_cleanup _ = False"

fun is_effect :: "event \<Rightarrow> bool" where
  "is_effect (EffectRun _) = True"
| "is_effect _ = False"

text \<open>No cleanup is invoked once an effect callback has been invoked.\<close>

definition cleanups_before_effects :: "event list \<Rightarrow> bool" where
  "cleanups_before_effects es = (\<not> list_ex is_cleanup (dropWhile (\<lambda>e. \<not> is_effect e) es))"

text \<open>Example: a component with one effect whose dependency changed, above another one.\<close>

definition ex_cleanup :: "nat \<Rightarrow> cleanup_fn" where
  "ex_cleanup n = \<lparr>cl_id = n, cl_calls = [], cl_throws = False\<rparr>"

definition ex_effect :: "nat \<Rightarrow> effect_fn" where
  "ex_effect n = \<lparr>ef_id = n, ef_calls = [], ef_result = ReturnsCleanup (ex_cleanup (n + 100))\<rparr>"

definition ex_unit :: "nat \<Rightarrow> hook list \<Rightarrow> hook list option \<Rightarrow> fiber option \<Rightarrow> fiber option \<Rightarrow> fiber" where
  "ex_unit fn hs old c s =
     Fiber \<lparr>ftype = Some (Func fn ''C'' ''''), fprops = Props None [] [], fdom = None, fparent = [],
            feffectTag = Some UPDATE, fhooks = Some hs, fctx = []\<rparr>
       (case old of
          None \<Rightarrow> None
        | Some ohs \<Rightarrow>
            Some (Fiber \<lparr>ftype = Some (Func fn ''C'' ''''), fprops = Props None [] [], fdom = None,
                         fparent = [], feffectTag = None, fhooks = Some ohs, fctx = []\<rparr>
                    None None None None))
       c s None"

definition ex_hook :: "nat \<Rightarrow> cleanup_fn option \<Rightarrow> int \<Rightarrow> hook" where
  "ex_hook n c dep = EffectHook (Some (ex_effect n)) c (DArr [VNum dep]) True"

definition ex_two_units :: fiber where
  "ex_two_units =
     ex_unit 1 [ex_hook 2 (Some (ex_cleanup 1)) 1] (Some [ex_hook 2 (Some (ex_cleanup 1)) 0])
       (Some (ex_unit 2 [ex_hook 4 (Some (ex_cleanup 3)) 1]
                (Some [ex_hook 4 (Some (ex_cleanup 3)) 0]) None None))
       None"

text \<open>Two mounted instances of one component \<open>Counter\<close>, before their hooks run.\<close>

definition ex_instance :: "int \<Rightarrow> fiber" where
  "ex_instance n =
     Fiber \<lparr>ftype = Some (Func 7 ''Counter'' ''function Counter() {}''),
            fprops = Props (Some (VNum n)) [] [], fdom = None, fparent = [],
            feffectTag = Some PLACEMENT, fhooks = Some [], fctx = []\<rparr> None None None None"

definition ex_first_read :: "error + ((jsval \<times> string) \<times> world)" where
  "ex_first_read = useState (InitVal (VNum 0)) (enter (ex_instance 1) init_world)"

definition ex_second_world :: world where
  "ex_second_world = enter (ex_instance 2) (snd (projr ex_first_read))"

text \<open>
  Example: a unit about to re-render, whose previous generation ran an effect with the
  dependency list \<open>[1]\<close>; and the state after its body has called \<open>useEffect\<close> with
  the list \<open>[d]\<close>.
\<close>

definition ex_rerender_unit :: fiber where
  "ex_rerender_unit = ex_unit 1 [] (Some [ex_hook 5 None 1]) None None"

definition ex_effect_world :: "int \<Rightarrow> world" where
  "ex_effect_world d =
     projr (useEffect (Some (ex_effect 5)) (DArr [VNum d]) (enter ex_rerender_unit init_world))"

text \<open>
  Example: a host unit \<open>ul\<close> (output node 10) about to re-render; its previous generation
  has the children \<open>olds\<close>, and \<open>es\<close> are its new child elements.
\<close>

definition ex_child :: "string \<Rightarrow> string \<Rightarrow> handle \<Rightarrow> fiber" where
  "ex_child tag k h =
     Fiber \<lparr>ftype = Some (Host tag), fprops = Props (Some (VStr k)) [] [], fdom = Some h,
            fparent = [\<lparr>p_dom = Some 10, p_ctx = []\<rparr>], feffectTag = Some PLACEMENT,
            fhooks = None, fctx = []\<rparr> None None None None"

definition ex_list_unit :: "fiber list \<Rightarrow> element option list \<Rightarrow> fiber" where
  "ex_list_unit olds es =
     Fiber \<lparr>ftype = Some (Host ''ul''), fprops = Props None [] es, fdom = Some 10,
            fparent = [], feffectTag = Some UPDATE, fhooks = None, fctx = []\<rparr>
       (Some (Fiber \<lparr>ftype = Some (Host ''ul''), fprops = Props None [] [], fdom = Some 10,
                    fparent = [], feffectTag = Some PLACEMENT, fhooks = None, fctx = []\<rparr>
                None (link_chain olds) None None))
       None None None"

definition ex_element :: "string \<Rightarrow> string \<Rightarrow> element option" where
  "ex_element tag k = Some (Element (Host tag) (Props (Some (VStr k)) [] []))"

lemma trace_startWorkLoop [simp]: "trace (startWorkLoop w) = trace w"
  by (simp add: startWorkLoop_def)

lemma trace_scheduleRerender [simp]: "trace (scheduleRerender w) = trace w"
  by (simp add: scheduleRerender_def Let_def split: option.splits)

lemma trace_setState [simp]: "trace (setState k a w) = trace w"
  by (simp add: setState_def Let_def split: option.splits)

lemma trace_dispatch [simp]: "trace (dispatch k a w) = trace w"
  by (simp add: dispatch_def Let_def split: option.splits)

lemma trace_run_call [simp]: "trace (run_call c w) = trace w"
  by (cases c) simp_all

lemma trace_run_calls [simp]: "trace (run_calls cs w) = trace w"
  by (induction cs arbitrary: w) simp_all

lemma trace_console_error [simp]: "trace (console_error m w) = trace w"
  by (simp add: console_error_def)

lemma trace_try_cleanup [simp]: "trace (try_cleanup c i w) = trace w @ [CleanupRun (cl_id c)]"
  by (simp add: try_cleanup_def call_cleanup_def)

lemma trace_cleanup_step:
  "trace (cleanup_step h alt i w) = trace w @ cleanup_events (due_cleanup h alt i)"
  by (simp add: cleanup_step_def due_cleanup_def cleanup_events_def split: hook.split option.split)

lemma cleanup_events_append [simp]:
  "cleanup_events (xs @ ys) = cleanup_events xs @ cleanup_events ys"
  by (simp add: cleanup_events_def)

lemma effect_events_append [simp]:
  "effect_events (xs @ ys) = effect_events xs @ effect_events ys"
  by (simp add: effect_events_def)

lemma trace_run_cleanups:
  "trace (run_cleanups hs alt i w) = trace w @ cleanup_events (due_cleanups hs alt i)"
  by (induction hs arbitrary: i w) (simp_all add: trace_cleanup_step cleanup_events_def)

lemma trace_try_effect:
  "trace (snd (try_effect (EffectHook e c d hc) f i w)) = trace w @ [EffectRun (ef_id f)]"
  by (simp add: try_effect_def call_effect_def split: effect_result.split)

lemma trace_effect_step:
  "trace (snd (effect_step h alt i w)) = trace w @ effect_events (due_effect h alt i)"
  by (auto simp add: effect_step_def due_effect_def effect_events_def trace_try_effect
           split: hook.split option.split)

lemma trace_run_effects:
  "trace (snd (run_effects hs alt i w)) = trace w @ effect_events (due_effects hs alt i)"
proof (induction hs arbitrary: i w)
  case Nil
  show ?case by (simp add: effect_events_def)
next
  case (Cons h hs)
  obtain h1 w1 where s1: "effect_step h alt i w = (h1, w1)" by (cases "effect_step h alt i w")
  obtain hs2 w2 where s2: "run_effects hs alt (Suc i) w1 = (hs2, w2)"
    by (cases "run_effects hs alt (Suc i) w1")
  have "trace w1 = trace w @ effect_events (due_effect h alt i)"
    using trace_effect_step[of h alt i w] s1 by simp
  moreover have "trace w2 = trace w1 @ effect_events (due_effects hs alt (Suc i))"
    using Cons.IH[of "Suc i" w1] s2 by simp
  ultimately show ?case using s1 s2 by simp
qed

lemma trace_effects_unit:
  "trace (snd (effects_unit hooks alt w)) = trace w @ unit_order hooks alt"
proof (cases hooks)
  case None
  then show ?thesis by (simp add: effects_unit_def unit_order_def)
next
  case (Some hs)
  obtain hs' w' where r: "run_effects hs alt 0 (run_cleanups hs alt 0 w) = (hs', w')"
    by (cases "run_effects hs alt 0 (run_cleanups hs alt 0 w)")
  have "trace w' = trace (run_cleanups hs alt 0 w) @ effect_events (due_effects hs alt 0)"
    using trace_run_effects[of hs alt 0 "run_cleanups hs alt 0 w"] r by simp
  then show ?thesis using Some r by (simp add: effects_unit_def unit_order_def trace_run_cleanups)
qed

lemma trace_runEffects: "trace (snd (runEffects t w)) = trace w @ effect_order t"
proof (induction t w rule: runEffects.induct)
  case (1 w)
  show ?case by simp
next
  case (2 d a c s dl w)
  obtain h1 w1 where s1: "effects_unit (fhooks d) a w = (h1, w1)"
    by (cases "effects_unit (fhooks d) a w")
  obtain c' w2 where s2: "runEffects c w1 = (c', w2)" by (cases "runEffects c w1")
  obtain s' w3 where s3: "runEffects s w2 = (s', w3)" by (cases "runEffects s w2")
  have t1: "trace w1 = trace w @ unit_order (fhooks d) a"
    using trace_effects_unit[of "fhooks d" a w] s1 by simp
  have t2: "trace w2 = trace w1 @ effect_order c"
    using "2.IH"(1)[OF s1[symmetric]] s2 by simp
  have t3: "trace w3 = trace w2 @ effect_order s"
    using "2.IH"(2)[OF s1[symmetric] s2[symmetric]] s3 by simp
  show ?case using s1 s2 s3 t1 t2 t3 by simp
qed

lemma cleanups_before_effects_unit: "cleanups_before_effects (unit_order hooks alt)"
proof (cases hooks)
  case None
  then show ?thesis by (simp add: unit_order_def cleanups_before_effects_def)
next
  case (Some hs)
  have a: "\<forall>e \<in> set (cleanup_events cs). \<not> is_effect e" for cs
    by (auto simp: cleanup_events_def)
  have b: "\<forall>e \<in> set (effect_events fs). \<not> is_cleanup e" for fs
    by (auto simp: effect_events_def)
  have "dropWhile (\<lambda>e. \<not> is_effect e) (cleanup_events cs @ effect_events fs)
          = dropWhile (\<lambda>e. \<not> is_effect e) (effect_events fs)" for cs fs
    using a[of cs] by (simp add: dropWhile_append)
  moreover have "\<not> list_ex is_cleanup (dropWhile (\<lambda>e. \<not> is_effect e) (effect_events fs))" for fs
    using b[of fs] set_dropWhileD[of _ "\<lambda>e. \<not> is_effect e" "effect_events fs"]
    by (auto simp: list_ex_iff)
  ultimately show ?thesis using Some by (simp add: unit_order_def cleanups_before_effects_def)
qed

lemma ex_two_units_order:
  "effect_order (Some ex_two_units) = [CleanupRun 1, EffectRun 2, CleanupRun 3, EffectRun 4]"
  by (simp add: ex_two_units_def ex_unit_def ex_hook_def ex_effect_def ex_cleanup_def
      unit_order_def due_cleanup_def due_effect_def shouldRunCleanup_def shouldRunEffect_def
      old_hook_at_def cleanup_events_def effect_events_def object_is_def)

text \<open>
  C1 (as stated): during the effect pass all cleanups of the whole tree run before any
  effect callback. This fails as soon as a unit with a due effect has a child with a due
  cleanup: the parent's effect runs before the child's cleanup.
\<close>

theorem runEffects_interleaves_units:
  "\<not> cleanups_before_effects (trace (snd (runEffects (Some ex_two_units) init_world)))"
  by (simp add: trace_runEffects ex_two_units_order cleanups_before_effects_def init_world_def)

text \<open>
  C1 (amended): the effect pass visits the units depth-first (a unit, then its child's
  subtree, then its sibling's subtree). For each unit it first invokes, in hook order, the
  due cleanups of the previous generation's hooks, then, in hook order, the due effect
  callbacks; so cleanups precede effects within one unit, not across the tree.
\<close>

theorem runEffects_order_per_unit:
  "trace (snd (runEffects (Some (Fiber d a c s dl)) w))
     = trace w @ unit_order (fhooks d) a @ effect_order c @ effect_order s
   \<and> cleanups_before_effects (unit_order (fhooks d) a)"
proof -
  have "trace (snd (runEffects (Some (Fiber d a c s dl)) w))
          = trace w @ effect_order (Some (Fiber d a c s dl))"
    by (rule trace_runEffects)
  then show ?thesis
    by (simp add: cleanups_before_effects_unit del: runEffects.simps)
qed

theorem runEffects_order_per_unit_witness:
  "trace (snd (runEffects (Some ex_two_units) init_world))
     = [CleanupRun 1, EffectRun 2, CleanupRun 3, EffectRun 4]
   \<and> cleanups_before_effects [CleanupRun 1, EffectRun 2]"
  using runEffects_order_per_unit[of "fdata ex_two_units" "falternate ex_two_units"
      "fchild ex_two_units" "fsibling ex_two_units" "fdeletions ex_two_units" init_world]
    ex_two_units_order
  by (simp add: ex_two_units_def ex_unit_def ex_hook_def ex_effect_def ex_cleanup_def
      unit_order_def due_cleanup_def due_effect_def shouldRunCleanup_def shouldRunEffect_def
      old_hook_at_def cleanup_events_def effect_events_def object_is_def init_world_def
      del: runEffects.simps)


section \<open>Errors thrown by callbacks\<close>

definition calm_cleanup :: "cleanup_fn \<Rightarrow> cleanup_fn" where
  "calm_cleanup c = c\<lparr>cl_throws := False\<rparr>"

definition calm_effect :: "effect_fn \<Rightarrow> effect_fn" where
  "calm_effect f =
     f\<lparr>ef_result := (case ef_result f of
                        Throws \<Rightarrow> ReturnsOther
                      | ReturnsCleanup c \<Rightarrow> ReturnsCleanup (calm_cleanup c)
                      | ReturnsOther \<Rightarrow> ReturnsOther)\<rparr>"

fun calm_hook :: "hook \<Rightarrow> hook" where
  "calm_hook (EffectHook e c d hc) =
     EffectHook (map_option calm_effect e) (map_option calm_cleanup c) d hc"
| "calm_hook h = h"

definition calm_data :: "fdata \<Rightarrow> fdata" where
  "calm_data d = d\<lparr>fhooks := map_option (map calm_hook) (fhooks d)\<rparr>"

text \<open>The same tree, where no callback throws.\<close>

fun calm :: "fiber option \<Rightarrow> fiber option" where
  "calm None = None"
| "calm (Some (Fiber d a c s dl)) = Some (Fiber (calm_data d) (calm a) (calm c) (calm s) dl)"

definition cleanup_errors :: "(nat \<times> cleanup_fn) list \<Rightarrow> console_msg list" where
  "cleanup_errors cs = map (\<lambda>(i, c). ErrCleanupAt i) (filter (\<lambda>(i, c). cl_throws c) cs)"

definition effect_errors :: "(nat \<times> effect_fn) list \<Rightarrow> console_msg list" where
  "effect_errors fs = map (\<lambda>(i, f). ErrEffectAt i) (filter (\<lambda>(i, f). ef_result f = Throws) fs)"

definition unit_errors :: "hook list option \<Rightarrow> fiber option \<Rightarrow> console_msg list" where
  "unit_errors hooks alt =
     (case hooks of
        None \<Rightarrow> []
      | Some hs \<Rightarrow> cleanup_errors (due_cleanups hs alt 0) @ effect_errors (due_effects hs alt 0))"

fun pass_errors :: "fiber option \<Rightarrow> console_msg list" where
  "pass_errors None = []"
| "pass_errors (Some (Fiber d a c s dl)) =
     unit_errors (fhooks d) a @ pass_errors c @ pass_errors s"

text \<open>The console without the scheduler's warnings.\<close>

definition error_msgs :: "world \<Rightarrow> console_msg list" where
  "error_msgs w = filter (\<lambda>m. m \<noteq> WarnNoCurrentRoot) (console w)"

text \<open>The cleanups that \<open>cleanupEffects\<close> finds in a removed subtree, with their hook index.\<close>

fun own_cleanups :: "hook list \<Rightarrow> nat \<Rightarrow> (nat \<times> cleanup_fn) list" where
  "own_cleanups [] index = []"
| "own_cleanups (h # hs) index =
     (case h of
        EffectHook e (Some c) d hc \<Rightarrow> [(index, c)]
      | _ \<Rightarrow> []) @ own_cleanups hs (Suc index)"

definition unit_cleanups :: "hook list option \<Rightarrow> (nat \<times> cleanup_fn) list" where
  "unit_cleanups hooks = (case hooks of None \<Rightarrow> [] | Some hs \<Rightarrow> own_cleanups hs 0)"

fun subtree_cleanups :: "fiber option \<Rightarrow> (nat \<times> cleanup_fn) list" where
  "subtree_cleanups None = []"
| "subtree_cleanups (Some (Fiber d a c s dl)) =
     unit_cleanups (fhooks d) @ subtree_cleanups c @ subtree_cleanups s"


lemma error_msgs_startWorkLoop [simp]: "error_msgs (startWorkLoop w) = error_msgs w"
  by (simp add: startWorkLoop_def error_msgs_def)

lemma error_msgs_scheduleRerender [simp]: "error_msgs (scheduleRerender w) = error_msgs w"
proof (cases "currentRoot w")
  case None
  then show ?thesis by (simp add: scheduleRerender_def error_msgs_def)
next
  case (Some a)
  have "console (scheduleRerender w) = console w"
    using Some by (simp add: scheduleRerender_def Let_def startWorkLoop_def)
  then show ?thesis by (simp add: error_msgs_def)
qed

lemma error_msgs_setState [simp]: "error_msgs (setState k a w) = error_msgs w"
proof -
  have "error_msgs (w\<lparr>updateQueues := q\<rparr>) = error_msgs w" for q
    by (simp add: error_msgs_def)
  then show ?thesis by (simp add: setState_def Let_def split: option.splits)
qed

lemma error_msgs_dispatch [simp]: "error_msgs (dispatch k a w) = error_msgs w"
proof -
  have "error_msgs (w\<lparr>actionQueues := q\<rparr>) = error_msgs w" for q
    by (simp add: error_msgs_def)
  then show ?thesis by (simp add: dispatch_def Let_def split: option.splits)
qed

lemma error_msgs_run_call [simp]: "error_msgs (run_call c w) = error_msgs w"
  by (cases c) simp_all

lemma error_msgs_run_calls [simp]: "error_msgs (run_calls cs w) = error_msgs w"
  by (induction cs arbitrary: w) simp_all

lemma error_msgs_trace_upd [simp]: "error_msgs (w\<lparr>trace := t\<rparr>) = error_msgs w"
  by (simp add: error_msgs_def)

lemma error_msgs_console_error:
  "m \<noteq> WarnNoCurrentRoot \<Longrightarrow> error_msgs (console_error m w) = error_msgs w @ [m]"
  by (simp add: error_msgs_def console_error_def)

lemma error_msgs_try_cleanup:
  "error_msgs (try_cleanup c i w) = error_msgs w @ cleanup_errors [(i, c)]"
  by (simp add: try_cleanup_def call_cleanup_def cleanup_errors_def error_msgs_console_error)

lemma cleanup_errors_append [simp]:
  "cleanup_errors (xs @ ys) = cleanup_errors xs @ cleanup_errors ys"
  by (simp add: cleanup_errors_def)

lemma effect_errors_append [simp]:
  "effect_errors (xs @ ys) = effect_errors xs @ effect_errors ys"
  by (simp add: effect_errors_def)

lemma cleanup_errors_Nil [simp]: "cleanup_errors [] = []"
  by (simp add: cleanup_errors_def)

lemma effect_errors_Nil [simp]: "effect_errors [] = []"
  by (simp add: effect_errors_def)

lemma error_msgs_cleanup_step:
  "error_msgs (cleanup_step h alt i w) = error_msgs w @ cleanup_errors (due_cleanup h alt i)"
  by (simp add: cleanup_step_def due_cleanup_def error_msgs_try_cleanup
           split: hook.split option.split)

lemma error_msgs_run_cleanups:
  "error_msgs (run_cleanups hs alt i w) = error_msgs w @ cleanup_errors (due_cleanups hs alt i)"
  by (induction hs arbitrary: i w) (simp_all add: error_msgs_cleanup_step)

lemma error_msgs_try_effect:
  "error_msgs (snd (try_effect (EffectHook e c d hc) f i w))
     = error_msgs w @ effect_errors [(i, f)]"
  by (simp add: try_effect_def call_effect_def effect_errors_def error_msgs_console_error
           split: effect_result.split)

lemma error_msgs_effect_step:
  "error_msgs (snd (effect_step h alt i w)) = error_msgs w @ effect_errors (due_effect h alt i)"
  by (auto simp add: effect_step_def due_effect_def error_msgs_try_effect
           split: hook.split option.split)

lemma error_msgs_run_effects:
  "error_msgs (snd (run_effects hs alt i w)) = error_msgs w @ effect_errors (due_effects hs alt i)"
proof (induction hs arbitrary: i w)
  case Nil
  show ?case by simp
next
  case (Cons h hs)
  obtain h1 w1 where s1: "effect_step h alt i w = (h1, w1)" by (cases "effect_step h alt i w")
  obtain hs2 w2 where s2: "run_effects hs alt (Suc i) w1 = (hs2, w2)"
    by (cases "run_effects hs alt (Suc i) w1")
  have "error_msgs w1 = error_msgs w @ effect_errors (due_effect h alt i)"
    using error_msgs_effect_step[of h alt i w] s1 by simp
  moreover have "error_msgs w2 = error_msgs w1 @ effect_errors (due_effects hs alt (Suc i))"
    using Cons.IH[of "Suc i" w1] s2 by simp
  ultimately show ?case using s1 s2 by simp
qed

lemma error_msgs_effects_unit:
  "error_msgs (snd (effects_unit hooks alt w)) = error_msgs w @ unit_errors hooks alt"
proof (cases hooks)
  case None
  then show ?thesis by (simp add: effects_unit_def unit_errors_def)
next
  case (Some hs)
  obtain hs' w' where r: "run_effects hs alt 0 (run_cleanups hs alt 0 w) = (hs', w')"
    by (cases "run_effects hs alt 0 (run_cleanups hs alt 0 w)")
  have "error_msgs w' = error_msgs (run_cleanups hs alt 0 w) @ effect_errors (due_effects hs alt 0)"
    using error_msgs_run_effects[of hs alt 0 "run_cleanups hs alt 0 w"] r by simp
  then show ?thesis
    using Some r by (simp add: effects_unit_def unit_errors_def error_msgs_run_cleanups)
qed

lemma error_msgs_runEffects: "error_msgs (snd (runEffects t w)) = error_msgs w @ pass_errors t"
proof (induction t w rule: runEffects.induct)
  case (1 w)
  show ?case by simp
next
  case (2 d a c s dl w)
  obtain h1 w1 where s1: "effects_unit (fhooks d) a w = (h1, w1)"
    by (cases "effects_unit (fhooks d) a w")
  obtain c' w2 where s2: "runEffects c w1 = (c', w2)" by (cases "runEffects c w1")
  obtain s' w3 where s3: "runEffects s w2 = (s', w3)" by (cases "runEffects s w2")
  have t1: "error_msgs w1 = error_msgs w @ unit_errors (fhooks d) a"
    using error_msgs_effects_unit[of "fhooks d" a w] s1 by simp
  have t2: "error_msgs w2 = error_msgs w1 @ pass_errors c"
    using "2.IH"(1)[OF s1[symmetric]] s2 by simp
  have t3: "error_msgs w3 = error_msgs w2 @ pass_errors s"
    using "2.IH"(2)[OF s1[symmetric] s2[symmetric]] s3 by simp
  show ?case using s1 s2 s3 t1 t2 t3 by simp
qed


lemma hook_deps_calm [simp]: "hook_deps (calm_hook h) = hook_deps h"
  by (cases h) simp_all

lemma hook_cleanup_calm [simp]: "hook_cleanup (calm_hook h) = map_option calm_cleanup (hook_cleanup h)"
  by (cases h) simp_all

lemma old_hook_at_calm [simp]: "old_hook_at (calm alt) i = map_option calm_hook (old_hook_at alt i)"
proof (cases alt)
  case None
  then show ?thesis by (simp add: old_hook_at_def)
next
  case (Some af)
  then show ?thesis
    by (cases af) (simp add: old_hook_at_def calm_data_def split: option.split)
qed

lemma shouldRunCleanup_calm [simp]:
  "shouldRunCleanup (map_option calm_hook oh) d = map_option calm_cleanup (shouldRunCleanup oh d)"
  by (cases oh) (auto simp add: shouldRunCleanup_def split: option.split)

lemma shouldRunEffect_calm [simp]:
  "shouldRunEffect (map_option calm_hook oh) d = shouldRunEffect oh d"
  by (cases oh) (simp_all add: shouldRunEffect_def)

lemma cleanup_events_calm:
  "cleanup_events (due_cleanup (calm_hook h) (calm alt) i) = cleanup_events (due_cleanup h alt i)"
  by (cases h) (simp_all add: due_cleanup_def cleanup_events_def calm_cleanup_def split: option.split)

lemma effect_events_calm:
  "effect_events (due_effect (calm_hook h) (calm alt) i) = effect_events (due_effect h alt i)"
  by (cases h) (simp_all add: due_effect_def effect_events_def calm_effect_def split: option.split)

lemma cleanup_events_calm_list:
  "cleanup_events (due_cleanups (map calm_hook hs) (calm alt) i) = cleanup_events (due_cleanups hs alt i)"
  by (induction hs arbitrary: i) (simp_all add: cleanup_events_calm)

lemma effect_events_calm_list:
  "effect_events (due_effects (map calm_hook hs) (calm alt) i) = effect_events (due_effects hs alt i)"
  by (induction hs arbitrary: i) (simp_all add: effect_events_calm)

lemma unit_order_calm:
  "unit_order (map_option (map calm_hook) hooks) (calm alt) = unit_order hooks alt"
  by (cases hooks) (simp_all add: unit_order_def cleanup_events_calm_list effect_events_calm_list)

lemma effect_order_calm: "effect_order (calm t) = effect_order t"
  by (induction t rule: calm.induct) (simp_all add: unit_order_calm calm_data_def)



lemma trace_cleanupEffects_step:
  "trace (snd (cleanupEffects_step h i w))
     = trace w @ cleanup_events (case h of EffectHook e (Some c) d hc \<Rightarrow> [(i, c)] | _ \<Rightarrow> [])"
  by (simp add: cleanupEffects_step_def cleanup_events_def split: hook.split option.split)

lemma error_msgs_cleanupEffects_step:
  "error_msgs (snd (cleanupEffects_step h i w))
     = error_msgs w @ cleanup_errors (case h of EffectHook e (Some c) d hc \<Rightarrow> [(i, c)] | _ \<Rightarrow> [])"
  by (simp add: cleanupEffects_step_def error_msgs_try_cleanup split: hook.split option.split)

lemma cleanup_hooks_log:
  "trace (snd (cleanup_hooks hs i w)) = trace w @ cleanup_events (own_cleanups hs i)
   \<and> error_msgs (snd (cleanup_hooks hs i w)) = error_msgs w @ cleanup_errors (own_cleanups hs i)"
proof (induction hs arbitrary: i w)
  case Nil
  show ?case by (simp add: cleanup_events_def)
next
  case (Cons h hs)
  obtain h1 w1 where s1: "cleanupEffects_step h i w = (h1, w1)"
    by (cases "cleanupEffects_step h i w")
  obtain hs2 w2 where s2: "cleanup_hooks hs (Suc i) w1 = (hs2, w2)"
    by (cases "cleanup_hooks hs (Suc i) w1")
  have a: "trace w1 = trace w @ cleanup_events (case h of EffectHook e (Some c) d hc \<Rightarrow> [(i, c)] | _ \<Rightarrow> [])"
    using trace_cleanupEffects_step[of h i w] s1 by simp
  have b: "error_msgs w1 = error_msgs w @ cleanup_errors (case h of EffectHook e (Some c) d hc \<Rightarrow> [(i, c)] | _ \<Rightarrow> [])"
    using error_msgs_cleanupEffects_step[of h i w] s1 by simp
  have c: "trace w2 = trace w1 @ cleanup_events (own_cleanups hs (Suc i))"
       "error_msgs w2 = error_msgs w1 @ cleanup_errors (own_cleanups hs (Suc i))"
    using Cons.IH[of "Suc i" w1] s2 by simp_all
  show ?case using s1 s2 a b c by simp
qed

lemma cleanup_unit_log:
  "trace (snd (cleanup_unit hooks w)) = trace w @ cleanup_events (unit_cleanups hooks)
   \<and> error_msgs (snd (cleanup_unit hooks w)) = error_msgs w @ cleanup_errors (unit_cleanups hooks)"
proof (cases hooks)
  case None
  then show ?thesis by (simp add: cleanup_unit_def unit_cleanups_def cleanup_events_def)
next
  case (Some hs)
  obtain hs' w' where r: "cleanup_hooks hs 0 w = (hs', w')" by (cases "cleanup_hooks hs 0 w")
  then show ?thesis
    using Some cleanup_hooks_log[of hs 0 w] by (simp add: cleanup_unit_def unit_cleanups_def)
qed

lemma cleanupEffects_log:
  "trace (snd (cleanupEffects t w)) = trace w @ cleanup_events (subtree_cleanups t)
   \<and> error_msgs (snd (cleanupEffects t w)) = error_msgs w @ cleanup_errors (subtree_cleanups t)"
proof (induction t w rule: cleanupEffects.induct)
  case (1 w)
  show ?case by (simp add: cleanup_events_def)
next
  case (2 d a c s dl w)
  obtain h1 w1 where s1: "cleanup_unit (fhooks d) w = (h1, w1)"
    by (cases "cleanup_unit (fhooks d) w")
  obtain c' w2 where s2: "cleanupEffects c w1 = (c', w2)" by (cases "cleanupEffects c w1")
  obtain s' w3 where s3: "cleanupEffects s w2 = (s', w3)" by (cases "cleanupEffects s w2")
  have t1: "trace w1 = trace w @ cleanup_events (unit_cleanups (fhooks d))"
           "error_msgs w1 = error_msgs w @ cleanup_errors (unit_cleanups (fhooks d))"
    using cleanup_unit_log[of "fhooks d" w] s1 by simp_all
  have t2: "trace w2 = trace w1 @ cleanup_events (subtree_cleanups c)"
           "error_msgs w2 = error_msgs w1 @ cleanup_errors (subtree_cleanups c)"
    using "2.IH"(1)[OF s1[symmetric]] s2 by simp_all
  have t3: "trace w3 = trace w2 @ cleanup_events (subtree_cleanups s)"
           "error_msgs w3 = error_msgs w2 @ cleanup_errors (subtree_cleanups s)"
    using "2.IH"(2)[OF s1[symmetric] s2[symmetric]] s3 by simp_all
  show ?case using s1 s2 s3 t1 t2 t3 by simp
qed

lemma own_cleanups_calm:
  "cleanup_events (own_cleanups (map calm_hook hs) i) = cleanup_events (own_cleanups hs i)"
proof (induction hs arbitrary: i)
  case Nil
  show ?case by simp
next
  case (Cons h hs)
  have "cleanup_events (case calm_hook h of EffectHook e (Some c) d hc \<Rightarrow> [(i, c)] | _ \<Rightarrow> [])
          = cleanup_events (case h of EffectHook e (Some c) d hc \<Rightarrow> [(i, c)] | _ \<Rightarrow> [])"
    by (cases h) (simp_all add: cleanup_events_def calm_cleanup_def split: option.split)
  then show ?case using Cons.IH by simp
qed

lemma subtree_cleanups_calm:
  "cleanup_events (subtree_cleanups (calm t)) = cleanup_events (subtree_cleanups t)"
proof (induction t rule: calm.induct)
  case 1
  show ?case by simp
next
  case (2 d a c s dl)
  have "cleanup_events (unit_cleanups (fhooks (calm_data d))) = cleanup_events (unit_cleanups (fhooks d))"
    by (cases "fhooks d") (simp_all add: unit_cleanups_def calm_data_def own_cleanups_calm)
  then show ?case using 2 by simp
qed

definition ex_throwing_cleanup :: "nat \<Rightarrow> cleanup_fn" where
  "ex_throwing_cleanup n = \<lparr>cl_id = n, cl_calls = [], cl_throws = True\<rparr>"

definition ex_throwing_hook :: "nat \<Rightarrow> cleanup_fn option \<Rightarrow> int \<Rightarrow> hook" where
  "ex_throwing_hook n c dep =
     EffectHook (Some \<lparr>ef_id = n, ef_calls = [], ef_result = Throws\<rparr>) c (DArr [VNum dep]) True"

text \<open>Example: the first unit's cleanup and effect both throw; a second unit follows.\<close>

definition ex_throwing_units :: fiber where
  "ex_throwing_units =
     ex_unit 1 [ex_throwing_hook 2 (Some (ex_throwing_cleanup 1)) 1]
       (Some [ex_throwing_hook 2 (Some (ex_throwing_cleanup 1)) 0])
       (Some (ex_unit 2 [ex_hook 4 (Some (ex_cleanup 3)) 1]
                (Some [ex_hook 4 (Some (ex_cleanup 3)) 0]) None None))
       None"

text \<open>
  C8: an exception thrown by an effect callback or by a cleanup function is caught where
  the callback is invoked and logged with the hook's index; the callbacks invoked by the
  effect pass (\<open>runEffects\<close>) and by the cleanup of a removed subtree
  (\<open>cleanupEffects\<close>) are the same, in the same order, as when no callback throws, and
  each invoked callback that throws leaves exactly one console error.
\<close>

theorem callback_errors_isolated:
  "trace (snd (runEffects t w)) = trace (snd (runEffects (calm t) w))
   \<and> error_msgs (snd (runEffects t w)) = error_msgs w @ pass_errors t
   \<and> trace (snd (cleanupEffects t w)) = trace (snd (cleanupEffects (calm t) w))
   \<and> error_msgs (snd (cleanupEffects t w)) = error_msgs w @ cleanup_errors (subtree_cleanups t)"
  by (simp add: trace_runEffects effect_order_calm error_msgs_runEffects cleanupEffects_log
      subtree_cleanups_calm)

theorem callback_errors_isolated_witness:
  "trace (snd (runEffects (Some ex_throwing_units) init_world))
     = trace (snd (runEffects (calm (Some ex_throwing_units)) init_world))
   \<and> trace (snd (runEffects (Some ex_throwing_units) init_world))
     = [CleanupRun 1, EffectRun 2, CleanupRun 3, EffectRun 4]
   \<and> error_msgs (snd (runEffects (Some ex_throwing_units) init_world))
     = [ErrCleanupAt 0, ErrEffectAt 0]
   \<and> trace (snd (cleanupEffects (Some ex_throwing_units) init_world))
     = trace (snd (cleanupEffects (calm (Some ex_throwing_units)) init_world))
   \<and> error_msgs (snd (cleanupEffects (Some ex_throwing_units) init_world)) = [ErrCleanupAt 0]"
proof -
  have o: "effect_order (Some ex_throwing_units)
             = [CleanupRun 1, EffectRun 2, CleanupRun 3, EffectRun 4]"
    by (simp add: ex_throwing_units_def ex_unit_def ex_hook_def ex_effect_def ex_cleanup_def
        ex_throwing_hook_def ex_throwing_cleanup_def
        unit_order_def due_cleanup_def due_effect_def shouldRunCleanup_def shouldRunEffect_def
        old_hook_at_def cleanup_events_def effect_events_def object_is_def)
  have p: "pass_errors (Some ex_throwing_units) = [ErrCleanupAt 0, ErrEffectAt 0]"
    by (simp add: ex_throwing_units_def ex_unit_def ex_hook_def ex_effect_def ex_cleanup_def
        ex_throwing_hook_def ex_throwing_cleanup_def unit_errors_def cleanup_errors_def
        effect_errors_def
        due_cleanup_def due_effect_def shouldRunCleanup_def shouldRunEffect_def
        old_hook_at_def object_is_def)
  have q: "cleanup_errors (subtree_cleanups (Some ex_throwing_units)) = [ErrCleanupAt 0]"
    by (simp add: ex_throwing_units_def ex_unit_def ex_hook_def ex_effect_def ex_cleanup_def
        ex_throwing_hook_def ex_throwing_cleanup_def unit_cleanups_def cleanup_errors_def)
  have e: "error_msgs init_world = []" "trace init_world = []"
    by (simp_all add: error_msgs_def init_world_def)
  show ?thesis
    using callback_errors_isolated[of "Some ex_throwing_units" init_world] o p q e
      trace_runEffects[of "Some ex_throwing_units" init_world]
    by (simp del: runEffects.simps cleanupEffects.simps calm.simps)
qed


section \<open>Hooks called outside a component\<close>

lemma mentions_prefix: "mentions name (name @ rest)"
  unfolding mentions_def list_ex_iff by (rule bexI[of _ 0]) simp_all

lemma validate_none:
  "getCurrentFiber w = None \<Longrightarrow>
   validateHookCall name w = Inl (Error (name @ '': must be called within a component''))"
  by (simp add: validateHookCall_def)

lemma useMemo_none:
  assumes "getCurrentFiber w = None"
  shows "useMemo (Some v) ds w = Inl (Error ''useMemo: must be called within a component'')"
proof -
  have "(if has_window w then win_wipFiber w else wipFiber w) = None"
    using assms by (auto simp: getCurrentFiber_def split: if_splits)
  then show ?thesis by (simp add: useMemo_def)
qed

text \<open>
  C7 (as stated): every hook, called while no current work unit is set, throws an error
  whose message names that hook. \<open>useCallback\<close> delegates to \<open>useMemo\<close> without a
  check of its own, so its error names \<open>useMemo\<close>.
\<close>

theorem useCallback_names_useMemo:
  "\<not> throws_naming ''useCallback'' (useCallback (VObj 0) (DArr []) init_world)"
proof -
  have "getCurrentFiber init_world = None" by (simp add: getCurrentFiber_def init_world_def)
  then have "useCallback (VObj 0) (DArr []) init_world
               = Inl (Error ''useMemo: must be called within a component'')"
    by (simp add: useCallback_def useMemo_none)
  moreover have "\<not> mentions ''useCallback'' ''useMemo: must be called within a component''"
    by code_simp
  ultimately show ?thesis by (simp add: throws_naming_def)
qed

text \<open>
  C7 (amended): called while no current work unit is set, \<open>useState\<close>, \<open>useEffect\<close>,
  \<open>useMemo\<close>, \<open>useRef\<close>, \<open>useReducer\<close> and \<open>useContext\<close> throw an error whose
  message names the hook; \<open>useCallback\<close> throws the error of \<open>useMemo\<close>, whose message
  names \<open>useMemo\<close>. \<open>useContext\<close> also throws, in any state, when its argument is not
  a context object, and that message names \<open>useContext\<close>.
\<close>

theorem hooks_throw_outside_component:
  assumes "getCurrentFiber w = None"
  shows "throws_naming ''useState'' (useState i w)
       \<and> throws_naming ''useEffect'' (useEffect e ds w)
       \<and> throws_naming ''useMemo'' (useMemo c ds w)
       \<and> throws_naming ''useMemo'' (useCallback cb ds w)
       \<and> throws_naming ''useRef'' (useRef v w)
       \<and> throws_naming ''useReducer'' (useReducer r s0 ini w)
       \<and> throws_naming ''useContext'' (useContext ctx w)
       \<and> throws_naming ''useContext'' (useContext NotAContext w')"
proof -
  note v = validate_none[OF assms]
  have 1: "throws_naming ''useState'' (useState i w)"
    using mentions_prefix[of "''useState''" "'': must be called within a component''"]
    by (simp add: useState_def v throws_naming_def)
  have 2: "throws_naming ''useEffect'' (useEffect e ds w)"
    using mentions_prefix[of "''useEffect''" "'': must be called within a component''"]
      mentions_prefix[of "''useEffect''" "'': effect must be a function''"]
    by (cases e) (simp_all add: useEffect_def v throws_naming_def)
  have 3: "throws_naming ''useMemo'' (useMemo c ds w)"
    using mentions_prefix[of "''useMemo''" "'': must be called within a component''"]
      mentions_prefix[of "''useMemo''" "'': first argument must be a function''"]
      useMemo_none[OF assms]
    by (cases c) (simp_all add: throws_naming_def, simp add: useMemo_def)
  have 4: "throws_naming ''useMemo'' (useCallback cb ds w)"
    using mentions_prefix[of "''useMemo''" "'': must be called within a component''"]
      useMemo_none[OF assms]
    by (simp add: throws_naming_def useCallback_def)
  have 5: "throws_naming ''useRef'' (useRef v w)"
    using mentions_prefix[of "''useRef''" "'': must be called within a component''"]
    by (simp add: useRef_def v throws_naming_def)
  have 6: "throws_naming ''useReducer'' (useReducer r s0 ini w)"
    using mentions_prefix[of "''useReducer''" "'': must be called within a component''"]
    by (simp add: useReducer_def v throws_naming_def)
  have 7: "throws_naming ''useContext'' (useContext ctx w)"
    using mentions_prefix[of "''useContext''" "'': must be called within a component''"]
    by (simp add: useContext_def v throws_naming_def)
  have 8: "throws_naming ''useContext'' (useContext NotAContext w')"
    using mentions_prefix[of "''useContext''" "'': must be called within a component''"]
      mentions_prefix[of "''useContext''" "'' must be called with a valid context object''"]
    by (cases "getCurrentFiber w'") (simp_all add: useContext_def validateHookCall_def throws_naming_def)
  show ?thesis using 1 2 3 4 5 6 7 8 by simp
qed


theorem hooks_throw_outside_component_witness:
  "getCurrentFiber init_world = None
   \<and> throws_naming ''useState'' (useState (InitVal (VNum 0)) init_world)
   \<and> throws_naming ''useEffect'' (useEffect (Some (ex_effect 1)) (DArr []) init_world)
   \<and> throws_naming ''useMemo'' (useMemo (Some (VNum 1)) (DArr []) init_world)
   \<and> throws_naming ''useMemo'' (useCallback (VObj 0) (DArr []) init_world)
   \<and> throws_naming ''useRef'' (useRef VNull init_world)
   \<and> throws_naming ''useReducer'' (useReducer (\<lambda>s a. s) (VNum 0) None init_world)
   \<and> throws_naming ''useContext'' (useContext (Context 0 VNull) init_world)
   \<and> throws_naming ''useContext'' (useContext NotAContext init_world)"
proof -
  have h: "getCurrentFiber init_world = None"
    by (simp add: getCurrentFiber_def init_world_def)
  show ?thesis
    using h hooks_throw_outside_component[OF h, of "InitVal (VNum 0)" "Some (ex_effect 1)"
        "DArr []" "Some (VNum 1)" "VObj 0" VNull "\<lambda>s a. s" "VNum 0" None "Context 0 VNull"
        init_world]
    by simp
qed

section \<open>Identity of state cells\<close>

lemma scheduleRerender_frame [simp]:
  "has_window (scheduleRerender w) = has_window w"
  "win_wipFiber (scheduleRerender w) = win_wipFiber w"
  "wipFiber (scheduleRerender w) = wipFiber w"
  "hookIndex (scheduleRerender w) = hookIndex w"
  "win_hookIndex (scheduleRerender w) = win_hookIndex w"
  "hookStates (scheduleRerender w) = hookStates w"
  "updateQueues (scheduleRerender w) = updateQueues w"
  "actionQueues (scheduleRerender w) = actionQueues w"
  "reducerStates (scheduleRerender w) = reducerStates w"
  "currentRoot (scheduleRerender w) = currentRoot w"
  "dom_kids (scheduleRerender w) = dom_kids w"
  "dom_next (scheduleRerender w) = dom_next w"
  by (simp_all add: scheduleRerender_def startWorkLoop_def Let_def split: option.splits)

lemma setState_frame [simp]:
  "has_window (setState k a w) = has_window w"
  "win_wipFiber (setState k a w) = win_wipFiber w"
  "wipFiber (setState k a w) = wipFiber w"
  "hookIndex (setState k a w) = hookIndex w"
  "win_hookIndex (setState k a w) = win_hookIndex w"
  "hookStates (setState k a w) = hookStates w"
  "currentRoot (setState k a w) = currentRoot w"
  "dom_kids (setState k a w) = dom_kids w"
  "dom_next (setState k a w) = dom_next w"
  by (simp_all add: setState_def Let_def split: option.splits)

lemma getCurrentFiber_setState [simp]: "getCurrentFiber (setState k a w) = getCurrentFiber w"
  by (auto simp: getCurrentFiber_def)

lemma getCurrentHookIndex_setState [simp]:
  "getCurrentHookIndex (setState k a w) = getCurrentHookIndex w"
  by (simp add: getCurrentHookIndex_def)


lemma updateQueues_setState:
  "updateQueues (setState k a w) =
     (if object_is (apply_action a (map_get (hookStates w) k)) (map_get (hookStates w) k)
      then updateQueues w
      else (case updateQueues w k of
              Some q \<Rightarrow> (updateQueues w)(k \<mapsto> q @ [a])
            | None \<Rightarrow> updateQueues w))"
  by (simp add: setState_def Let_def split: option.splits)

text \<open>What a \<open>useState\<close> call returns, in terms of the two maps.\<close>

lemma useState_result:
  assumes "useState ini w = Inr ((v, k), w')" and "getCurrentFiber w = Some cur"
  shows "k = hook_key (ftype (fdata cur)) (getCurrentHookIndex w)"
    and "v = drain (case hookStates w k of Some s \<Rightarrow> s | None \<Rightarrow> init_value ini)
                   (case updateQueues w k of Some q \<Rightarrow> q | None \<Rightarrow> [])"
    and "hookStates w' = (hookStates w)(k \<mapsto> v)"
    and "updateQueues w' = (updateQueues w)(k \<mapsto> [])"
proof -
  let ?k = "hook_key (ftype (fdata cur)) (getCurrentHookIndex w)"
  obtain hs where hs: "fhooks (fdata cur) = Some hs"
    using assms by (cases "fhooks (fdata cur)")
      (auto simp: useState_def validateHookCall_def push_hook_def Let_def)
  have st: "hookStates (incrementHookIndex (setCurrentFiber f x)) = hookStates x"
       "updateQueues (incrementHookIndex (setCurrentFiber f x)) = updateQueues x" for f x
    by (simp_all add: incrementHookIndex_def setCurrentFiber_def)
  show "k = ?k"
    using assms hs by (auto simp: useState_def validateHookCall_def push_hook_def Let_def)
  then show "v = drain (case hookStates w k of Some s \<Rightarrow> s | None \<Rightarrow> init_value ini)
                   (case updateQueues w k of Some q \<Rightarrow> q | None \<Rightarrow> [])"
    using assms hs
    by (auto simp: useState_def validateHookCall_def push_hook_def Let_def split: option.splits)
  show "hookStates w' = (hookStates w)(k \<mapsto> v)"
    using assms hs
    by (auto simp: useState_def validateHookCall_def push_hook_def Let_def st)
  show "updateQueues w' = (updateQueues w)(k \<mapsto> [])"
    using assms hs
    by (auto simp: useState_def validateHookCall_def push_hook_def Let_def st)
qed

lemma useReducer_result:
  assumes "useReducer red s0 ini w = Inr ((v, k), w')" and "getCurrentFiber w = Some cur"
  shows "k = hook_key (ftype (fdata cur)) (getCurrentHookIndex w)"
    and "v = foldl red (case reducerStates w k of
                          Some s \<Rightarrow> s
                        | None \<Rightarrow> (case ini of Some i \<Rightarrow> i s0 | None \<Rightarrow> s0))
                       (case actionQueues w k of Some q \<Rightarrow> q | None \<Rightarrow> [])"
    and "reducerStates w' = (reducerStates w)(k \<mapsto> v)"
    and "actionQueues w' = (actionQueues w)(k \<mapsto> [])"
proof -
  have st: "reducerStates (incrementHookIndex (setCurrentFiber f x)) = reducerStates x"
       "actionQueues (incrementHookIndex (setCurrentFiber f x)) = actionQueues x" for f x
    by (simp_all add: incrementHookIndex_def setCurrentFiber_def)
  show "k = hook_key (ftype (fdata cur)) (getCurrentHookIndex w)"
    using assms by (auto simp: useReducer_def validateHookCall_def Let_def)
  then show "v = foldl red (case reducerStates w k of
                          Some s \<Rightarrow> s
                        | None \<Rightarrow> (case ini of Some i \<Rightarrow> i s0 | None \<Rightarrow> s0))
                       (case actionQueues w k of Some q \<Rightarrow> q | None \<Rightarrow> [])"
    using assms
    by (auto simp: useReducer_def validateHookCall_def Let_def split: option.splits)
  show "reducerStates w' = (reducerStates w)(k \<mapsto> v)"
    using assms by (auto simp: useReducer_def validateHookCall_def Let_def st)
  show "actionQueues w' = (actionQueues w)(k \<mapsto> [])"
    using assms by (auto simp: useReducer_def validateHookCall_def Let_def st)
qed

lemma useState_succeeds:
  assumes "getCurrentFiber w = Some cur" and "fhooks (fdata cur) = Some hs"
  shows "\<exists>v k w'. useState ini w = Inr ((v, k), w')"
  using assms by (simp add: useState_def validateHookCall_def push_hook_def Let_def)

lemma useReducer_succeeds:
  assumes "getCurrentFiber w = Some cur"
  shows "\<exists>v k w'. useReducer red s0 ini w = Inr ((v, k), w')"
  using assms by (simp add: useReducer_def validateHookCall_def Let_def)

lemma enter_current [simp]:
  "getCurrentFiber (enter f w) = Some f"
  "getCurrentHookIndex (enter f w) = 0"
  "has_window (enter f w) = has_window w"
  "hookStates (enter f w) = hookStates w"
  "updateQueues (enter f w) = updateQueues w"
  "reducerStates (enter f w) = reducerStates w"
  "actionQueues (enter f w) = actionQueues w"
  by (simp_all add: enter_def getCurrentFiber_def getCurrentHookIndex_def Let_def)

lemma show_nat_0: "show_nat 0 = ''0''"
  by (simp add: show_nat.simps[of 0] digit_char_def)

text \<open>The decimal digits are distinct characters, none of them the separator of a key.\<close>

lemma digit_char_inj: "a < 10 \<Longrightarrow> b < 10 \<Longrightarrow> digit_char a = digit_char b \<Longrightarrow> a = b"
proof -
  assume a: "a < 10" and b: "b < 10" and e: "digit_char a = digit_char b"
  have d: "distinct ''0123456789''" by simp
  have "a < length ''0123456789''" "b < length ''0123456789''" using a b by simp_all
  then show "a = b" using e nth_eq_iff_index_eq[OF d] unfolding digit_char_def by blast
qed

lemma digit_char_no_separator: "n < 10 \<Longrightarrow> digit_char n \<noteq> CHR ''_''"
proof -
  assume "n < 10"
  then have "n < length ''0123456789''" by simp
  then have "''0123456789'' ! n \<in> set ''0123456789''" by (rule nth_mem)
  then show ?thesis unfolding digit_char_def by auto
qed

lemma show_nat_no_separator: "CHR ''_'' \<notin> set (show_nat n)"
proof (induction n rule: show_nat.induct)
  case (1 n)
  show ?case
  proof (cases "n < 10")
    case True
    then show ?thesis using digit_char_no_separator[of n] by (simp add: show_nat.simps[of n])
  next
    case False
    have "n mod 10 < 10" by simp
    then show ?thesis
      using False 1 digit_char_no_separator[of "n mod 10"] by (simp add: show_nat.simps[of n])
  qed
qed

lemma show_nat_not_Nil: "show_nat n \<noteq> []"
  by (simp add: show_nat.simps[of n])

lemma show_nat_inj: "show_nat n = show_nat m \<Longrightarrow> n = m"
proof (induction n arbitrary: m rule: less_induct)
  case (less n)
  have l: "last (show_nat k) = digit_char (k mod 10)" for k
    by (simp add: show_nat.simps[of k])
  have bl: "butlast (show_nat k) = (if k < 10 then [] else show_nat (k div 10))" for k
    by (simp add: show_nat.simps[of k])
  have "digit_char (n mod 10) = digit_char (m mod 10)" using less.prems l by metis
  then have md: "n mod 10 = m mod 10" using digit_char_inj[of "n mod 10" "m mod 10"] by simp
  have be: "(if n < 10 then [] else show_nat (n div 10))
              = (if m < 10 then [] else show_nat (m div 10))"
    using less.prems bl by metis
  show ?case
  proof (cases "n < 10")
    case True
    then have "m < 10" using be show_nat_not_Nil[of "m div 10"] by (cases "m < 10") auto
    then show ?thesis using True md by simp
  next
    case False
    then have m: "\<not> m < 10" using be show_nat_not_Nil[of "n div 10"] by (cases "m < 10") auto
    then have "show_nat (n div 10) = show_nat (m div 10)" using be False by simp
    moreover have "n div 10 < n" using False by simp
    ultimately have "n div 10 = m div 10" using less.IH by blast
    then show ?thesis using md by (metis div_mult_mod_eq)
  qed
qed

lemma split_at_first:
  assumes "x \<notin> set xs" and "x \<notin> set xs'" and "xs @ x # ys = xs' @ x # ys'"
  shows "xs = xs' \<and> ys = ys'"
proof -
  have t: "takeWhile (\<lambda>c. c \<noteq> x) (zs @ x # us) = zs" if "x \<notin> set zs" for zs us
  proof -
    have "\<And>c. c \<in> set zs \<Longrightarrow> c \<noteq> x" using that by auto
    then have "takeWhile (\<lambda>c. c \<noteq> x) (zs @ x # us) = zs @ takeWhile (\<lambda>c. c \<noteq> x) (x # us)"
      by (rule takeWhile_append2)
    then show ?thesis by simp
  qed
  have a: "takeWhile (\<lambda>c. c \<noteq> x) (xs @ x # ys) = xs" using t[OF assms(1)] .
  have b: "takeWhile (\<lambda>c. c \<noteq> x) (xs' @ x # ys') = xs'" using t[OF assms(2)] .
  have "xs = xs'" using a b assms(3) by simp
  then show ?thesis using assms(3) by simp
qed

text \<open>A key determines the label and the hook index it was made of.\<close>

lemma hook_key_eq_iff:
  "(hook_key t i = hook_key t' j) = (type_label t = type_label t' \<and> i = j)"
proof
  assume e: "hook_key t i = hook_key t' j"
  have "rev (hook_key t i) = rev (hook_key t' j)" using e by simp
  then have r: "rev (show_nat i) @ CHR ''_'' # rev (type_label t)
                  = rev (show_nat j) @ CHR ''_'' # rev (type_label t')"
    by (simp add: hook_key_def)
  have n: "CHR ''_'' \<notin> set (rev (show_nat i))" "CHR ''_'' \<notin> set (rev (show_nat j))"
    using show_nat_no_separator by simp_all
  have "rev (show_nat i) = rev (show_nat j) \<and> rev (type_label t) = rev (type_label t')"
    by (rule split_at_first[OF n r])
  then have "show_nat i = show_nat j" "type_label t = type_label t'" by simp_all
  then show "type_label t = type_label t' \<and> i = j" using show_nat_inj[of i j] by simp
next
  assume "type_label t = type_label t' \<and> i = j"
  then show "hook_key t i = hook_key t' j" by (simp add: hook_key_def)
qed

lemma dispatch_queue:
  "actionQueues w k = Some q \<Longrightarrow> actionQueues (dispatch k a w) = (actionQueues w)(k \<mapsto> q @ [a])"
  by (simp add: dispatch_def Let_def)

lemma dispatch_frame [simp]:
  "reducerStates (dispatch k a w) = reducerStates w"
  "getCurrentFiber (dispatch k a w) = getCurrentFiber w"
  "getCurrentHookIndex (dispatch k a w) = getCurrentHookIndex w"
  by (auto simp: dispatch_def Let_def getCurrentFiber_def getCurrentHookIndex_def
      scheduleRerender_def startWorkLoop_def split: option.splits)

text \<open>
  Example: two components without a function name (both names are the empty string),
  with different source texts. Their cells at hook index 0 are different ones: the second
  reads its own initial value, not what was set through the setter of the first.
\<close>

definition ex_nameless :: "nat \<Rightarrow> string \<Rightarrow> fiber" where
  "ex_nameless n src =
     Fiber \<lparr>ftype = Some (Func n '''' src), fprops = Props None [] [], fdom = None,
            fparent = [], feffectTag = Some PLACEMENT, fhooks = Some [], fctx = []\<rparr>
       None None None None"

definition ex_nameless_first :: "error + ((jsval \<times> string) \<times> world)" where
  "ex_nameless_first =
     useState (InitVal (VNum 0)) (enter (ex_nameless 1 ''() => one'') init_world)"

definition ex_nameless_second_world :: world where
  "ex_nameless_second_world =
     enter (ex_nameless 2 ''() => two'') (snd (projr ex_nameless_first))"

lemmas hook_defs = useState_def validateHookCall_def push_hook_def Let_def hook_key_def
  show_nat_0 enter_def getCurrentFiber_def getCurrentHookIndex_def setState_def
  scheduleRerender_def init_world_def drain_def map_get_def object_is_def
  incrementHookIndex_def setCurrentFiber_def set_hooks_def

theorem nameless_components_have_separate_cells:
  "ftype (fdata (ex_nameless 1 ''() => one'')) = Some (Func 1 '''' ''() => one'')
   \<and> ftype (fdata (ex_nameless 2 ''() => two'')) = Some (Func 2 '''' ''() => two'')
   \<and> fst (projr ex_nameless_first) = (VNum 0, ''() => one_0'')
   \<and> fst (projr (useState (InitVal (VNum 5))
                    (setState ''() => one_0'' (Val (VNum 9)) ex_nameless_second_world)))
       = (VNum 5, ''() => two_0'')"
  by (simp add: ex_nameless_first_def ex_nameless_second_world_def ex_nameless_def hook_defs)

text \<open>
  C10 (amended): the state cell of \<open>useState\<close> (and of \<open>useReducer\<close>) is found by a key
  made of the component's label and the hook index, not by the work unit. The label of a
  function component is its name or, when the name is empty, its source text. The key
  determines label and index: two units get the same key exactly when their labels and
  their hook indices are equal. With the same key the second unit reads the cell of the
  first: its own initial value is ignored, it reads what the first one stored, and an
  update through the first unit's setter (an action dispatched through the first unit's
  dispatcher) is what the second unit reads next and stores. With another key the second
  unit, on its first read, gets its own initial value.
\<close>

theorem state_cell_keyed_by_label:
  assumes c1: "getCurrentFiber w1 = Some f1" and c2: "getCurrentFiber w2 = Some f2"
      and u1: "useState ini1 w1 = Inr ((v1, k1), w1')"
      and hs: "hookStates w2 = hookStates w1'"
      and qs: "updateQueues w2 = updateQueues w1'"
      and u2: "useState ini2 w2 = Inr ((v2, k2), w2')"
      and u3: "useState ini2 (setState k1 act w2) = Inr ((v3, k3), w3')"
      and c5: "getCurrentFiber w5 = Some f1" and c6: "getCurrentFiber w6 = Some f2"
      and u5: "useReducer red1 r1 in1 w5 = Inr ((v5, k5), w5')"
      and rs: "reducerStates w6 = reducerStates w5'"
      and aq: "actionQueues w6 = actionQueues w5'"
      and u6: "useReducer red2 r2 in2 w6 = Inr ((v6, k6), w6')"
      and u7: "useReducer red2 r2 in2 (dispatch k5 a w6) = Inr ((v7, k7), w7')"
  shows "k1 = type_label (ftype (fdata f1)) @ ''_'' @ show_nat (getCurrentHookIndex w1)
       \<and> k5 = type_label (ftype (fdata f1)) @ ''_'' @ show_nat (getCurrentHookIndex w5)
       \<and> (\<forall>i name src. ftype (fdata f1) = Some (Func i name src) \<longrightarrow>
             type_label (ftype (fdata f1))
               = (if name \<noteq> [] then name else if src \<noteq> [] then src else ''anonymous''))
       \<and> hookStates w1' k1 = Some v1 \<and> reducerStates w5' k5 = Some v5
       \<and> ((k2 = k1) = (type_label (ftype (fdata f2)) = type_label (ftype (fdata f1))
                        \<and> getCurrentHookIndex w2 = getCurrentHookIndex w1))
       \<and> ((k6 = k5) = (type_label (ftype (fdata f2)) = type_label (ftype (fdata f1))
                        \<and> getCurrentHookIndex w6 = getCurrentHookIndex w5))
       \<and> (k2 = k1 \<longrightarrow> v2 = v1 \<and> k3 = k1 \<and> v3 = apply_action act v1
                       \<and> hookStates w3' k1 = Some (apply_action act v1))
       \<and> (k6 = k5 \<longrightarrow> v6 = v5 \<and> k7 = k5 \<and> v7 = red2 v5 a
                       \<and> reducerStates w7' k5 = Some (red2 v5 a))
       \<and> (k2 \<noteq> k1 \<longrightarrow> hookStates w1' k2 = None \<longrightarrow> updateQueues w1' k2 = None \<longrightarrow>
             v2 = init_value ini2)"
proof -
  note r1 = useState_result[OF u1 c1]
  note r2 = useState_result[OF u2 c2]
  have c3: "getCurrentFiber (setState k1 act w2) = Some f2" using c2 by simp
  note r3 = useState_result[OF u3 c3]
  note r5 = useReducer_result[OF u5 c5]
  note r6 = useReducer_result[OF u6 c6]
  have c7: "getCurrentFiber (dispatch k5 a w6) = Some f2" using c6 by simp
  note r7 = useReducer_result[OF u7 c7]
  have a1: "k1 = type_label (ftype (fdata f1)) @ ''_'' @ show_nat (getCurrentHookIndex w1)"
    using r1(1) by (simp add: hook_key_def)
  have a2: "k5 = type_label (ftype (fdata f1)) @ ''_'' @ show_nat (getCurrentHookIndex w5)"
    using r5(1) by (simp add: hook_key_def)
  have a3: "\<forall>i name src. ftype (fdata f1) = Some (Func i name src) \<longrightarrow>
             type_label (ftype (fdata f1))
               = (if name \<noteq> [] then name else if src \<noteq> [] then src else ''anonymous'')"
    by simp
  have a4: "hookStates w1' k1 = Some v1" using r1(3) by simp
  have a5: "reducerStates w5' k5 = Some v5" using r5(3) by simp
  have a6: "(k2 = k1) = (type_label (ftype (fdata f2)) = type_label (ftype (fdata f1))
                        \<and> getCurrentHookIndex w2 = getCurrentHookIndex w1)"
    using r1(1) r2(1) hook_key_eq_iff by simp
  have a7: "(k6 = k5) = (type_label (ftype (fdata f2)) = type_label (ftype (fdata f1))
                        \<and> getCurrentHookIndex w6 = getCurrentHookIndex w5)"
    using r5(1) r6(1) hook_key_eq_iff by simp
  have a8: "k2 = k1 \<longrightarrow> v2 = v1 \<and> k3 = k1 \<and> v3 = apply_action act v1
                       \<and> hookStates w3' k1 = Some (apply_action act v1)"
  proof
    assume k21: "k2 = k1"
    have s2: "hookStates w2 k1 = Some v1" "updateQueues w2 k1 = Some []"
      using r1(3,4) hs qs by simp_all
    have v21: "v2 = v1" using r2(2) k21 s2 by (simp add: drain_def)
    have k31: "k3 = k1" using r3(1) r2(1) k21 by simp
    have v3: "v3 = apply_action act v1"
    proof (cases "object_is (apply_action act v1) v1")
      case True
      then have "updateQueues (setState k1 act w2) k1 = Some []"
        using s2 by (simp add: updateQueues_setState map_get_def)
      then show ?thesis using r3(2) k31 s2 True by (simp add: drain_def object_is_def)
    next
      case False
      then have "updateQueues (setState k1 act w2) k1 = Some [act]"
        using s2 by (simp add: updateQueues_setState map_get_def)
      then show ?thesis using r3(2) k31 s2 by (simp add: drain_def)
    qed
    have "hookStates w3' k1 = Some v3" using r3(3) k31 by simp
    then show "v2 = v1 \<and> k3 = k1 \<and> v3 = apply_action act v1
                 \<and> hookStates w3' k1 = Some (apply_action act v1)"
      using v21 k31 v3 by simp
  qed
  have a9: "k6 = k5 \<longrightarrow> v6 = v5 \<and> k7 = k5 \<and> v7 = red2 v5 a
                       \<and> reducerStates w7' k5 = Some (red2 v5 a)"
  proof
    assume k65: "k6 = k5"
    have s6: "reducerStates w6 k5 = Some v5" "actionQueues w6 k5 = Some []"
      using r5(3,4) rs aq by simp_all
    have v65: "v6 = v5" using r6(2) k65 s6 by simp
    have k75: "k7 = k5" using r7(1) r6(1) k65 by simp
    have q7: "actionQueues (dispatch k5 a w6) k5 = Some [a]"
      using dispatch_queue[OF s6(2), of a] by simp
    have v7: "v7 = red2 v5 a" using r7(2) k75 s6(1) q7 by simp
    have "reducerStates w7' k5 = Some v7" using r7(3) k75 by simp
    then show "v6 = v5 \<and> k7 = k5 \<and> v7 = red2 v5 a \<and> reducerStates w7' k5 = Some (red2 v5 a)"
      using v65 k75 v7 by simp
  qed
  have a10: "k2 \<noteq> k1 \<longrightarrow> hookStates w1' k2 = None \<longrightarrow> updateQueues w1' k2 = None \<longrightarrow>
             v2 = init_value ini2"
    using r2(2) hs qs by (simp add: drain_def)
  show ?thesis using a1 a2 a3 a4 a5 a6 a7 a8 a9 a10 by blast
qed

text \<open>
  Example: two mounted instances of \<open>Counter\<close>. The second reads the first one's cell
  (0, not its own initial value 5), and after \<open>setState(9)\<close> through the first one's
  setter it reads 9; with \<open>useReducer\<close> and a reducer that adds, the second reads the
  first one's 1, and 10 after 9 is dispatched through the first one's dispatcher.
\<close>

definition ex_add :: "jsval \<Rightarrow> jsval \<Rightarrow> jsval" where
  "ex_add s a = (case (s, a) of (VNum x, VNum y) \<Rightarrow> VNum (x + y) | _ \<Rightarrow> s)"

definition ex_first_sum :: "error + ((jsval \<times> string) \<times> world)" where
  "ex_first_sum = useReducer ex_add (VNum 1) None (enter (ex_instance 1) init_world)"

definition ex_second_sum_world :: world where
  "ex_second_sum_world = enter (ex_instance 2) (snd (projr ex_first_sum))"

theorem state_cell_keyed_by_label_witness:
  "fst (projr ex_first_read) = (VNum 0, ''Counter_0'')
   \<and> fst (projr (useState (InitVal (VNum 5)) ex_second_world)) = (VNum 0, ''Counter_0'')
   \<and> fst (projr (useState (InitVal (VNum 5))
                    (setState ''Counter_0'' (Val (VNum 9)) ex_second_world)))
       = (VNum 9, ''Counter_0'')
   \<and> fst (projr ex_first_sum) = (VNum 1, ''Counter_0'')
   \<and> fst (projr (useReducer ex_add (VNum 5) None ex_second_sum_world)) = (VNum 1, ''Counter_0'')
   \<and> fst (projr (useReducer ex_add (VNum 5) None
                    (dispatch ''Counter_0'' (VNum 9) ex_second_sum_world)))
       = (VNum 10, ''Counter_0'')"
proof -
  let ?f1 = "ex_instance 1" and ?f2 = "ex_instance 2"
  let ?w1 = "enter ?f1 init_world"
  have t: "ftype (fdata ?f1) = Some (Func 7 ''Counter'' ''function Counter() {}'')"
          "ftype (fdata ?f2) = Some (Func 7 ''Counter'' ''function Counter() {}'')"
          "fhooks (fdata ?f1) = Some []" "fhooks (fdata ?f2) = Some []"
    by (simp_all add: ex_instance_def)
  have c1: "getCurrentFiber ?w1 = Some ?f1" by simp
  obtain v1 k1 w1' where u1: "useState (InitVal (VNum 0)) ?w1 = Inr ((v1, k1), w1')"
    using useState_succeeds[OF c1 t(3), of "InitVal (VNum 0)"] by auto
  have fr: "ex_first_read = Inr ((v1, k1), w1')" using u1 by (simp add: ex_first_read_def)
  have w2: "ex_second_world = enter ?f2 w1'" by (simp add: ex_second_world_def fr)
  have c2: "getCurrentFiber ex_second_world = Some ?f2" by (simp add: w2)
  obtain v2 k2 w2' where u2: "useState (InitVal (VNum 5)) ex_second_world = Inr ((v2, k2), w2')"
    using useState_succeeds[OF c2 t(4), of "InitVal (VNum 5)"] by auto
  have c3: "getCurrentFiber (setState k1 (Val (VNum 9)) ex_second_world) = Some ?f2"
    by (simp add: w2)
  obtain v3 k3 w3' where
    u3: "useState (InitVal (VNum 5)) (setState k1 (Val (VNum 9)) ex_second_world)
           = Inr ((v3, k3), w3')"
    using useState_succeeds[OF c3 t(4), of "InitVal (VNum 5)"] by auto
  obtain v5 k5 w5' where
    u5: "useReducer ex_add (VNum 1) None ?w1 = Inr ((v5, k5), w5')"
    using useReducer_succeeds[OF c1, of ex_add "VNum 1" None] by auto
  have fr5: "ex_first_sum = Inr ((v5, k5), w5')" using u5 by (simp add: ex_first_sum_def)
  have w6: "ex_second_sum_world = enter ?f2 w5'"
    by (simp add: ex_second_sum_world_def fr5)
  have c6: "getCurrentFiber ex_second_sum_world = Some ?f2" by (simp add: w6)
  obtain v6 k6 w6' where
    u6: "useReducer ex_add (VNum 5) None ex_second_sum_world = Inr ((v6, k6), w6')"
    using useReducer_succeeds[OF c6, of ex_add "VNum 5" None] by auto
  have c7: "getCurrentFiber (dispatch k5 (VNum 9) ex_second_sum_world) = Some ?f2"
    by (simp add: w6)
  obtain v7 k7 w7' where
    u7: "useReducer ex_add (VNum 5) None (dispatch k5 (VNum 9) ex_second_sum_world)
           = Inr ((v7, k7), w7')"
    using useReducer_succeeds[OF c7, of ex_add "VNum 5" None] by auto
  have hs: "hookStates ex_second_world = hookStates w1'"
    and qs: "updateQueues ex_second_world = updateQueues w1'"
    and ix: "getCurrentHookIndex ex_second_world = getCurrentHookIndex ?w1"
    by (simp_all add: w2)
  have rs: "reducerStates ex_second_sum_world = reducerStates w5'"
    and aq: "actionQueues ex_second_sum_world = actionQueues w5'"
    and ix': "getCurrentHookIndex ex_second_sum_world = getCurrentHookIndex ?w1"
    by (simp_all add: w6)
  note main = state_cell_keyed_by_label[OF c1 c2 u1 hs qs u2 u3 c1 c6 u5 rs aq u6 u7]
  have k1: "k1 = ''Counter_0''" and k5: "k5 = ''Counter_0''"
    using main t by (simp_all add: show_nat_0)
  have k21: "k2 = k1" and k65: "k6 = k5" using main t ix ix' by simp_all
  have v1: "v1 = VNum 0"
    using useState_result(2)[OF u1, of ?f1] by (simp add: init_world_def drain_def)
  have v5: "v5 = VNum 1"
    using useReducer_result(2)[OF u5, of ?f1] by (simp add: init_world_def)
  have m2: "v2 = v1 \<and> k3 = k1 \<and> v3 = apply_action (Val (VNum 9)) v1" using main k21 by blast
  have m6: "v6 = v5 \<and> k7 = k5 \<and> v7 = ex_add v5 (VNum 9)" using main k65 by blast
  have p1: "fst (projr ex_first_read) = (v1, k1)" by (simp add: fr)
  have p2: "fst (projr (useState (InitVal (VNum 5)) ex_second_world)) = (v2, k2)"
    by (simp add: u2)
  have p3: "fst (projr (useState (InitVal (VNum 5))
                    (setState ''Counter_0'' (Val (VNum 9)) ex_second_world))) = (v3, k3)"
    using u3 k1 by simp
  have p5: "fst (projr ex_first_sum) = (v5, k5)" by (simp add: fr5)
  have p6: "fst (projr (useReducer ex_add (VNum 5) None ex_second_sum_world)) = (v6, k6)"
    by (simp add: u6)
  have p7: "fst (projr (useReducer ex_add (VNum 5) None
                    (dispatch ''Counter_0'' (VNum 9) ex_second_sum_world))) = (v7, k7)"
    using u7 k5 by simp
  show ?thesis
    using m2 m6 k21 k65 k1 k5 v1 v5 by (simp add: p1 p2 p3 p5 p6 p7 ex_add_def)
qed

section \<open>Dependency lists of effects\<close>

lemma getCurrentFiber_setCurrentFiber [simp]:
  "getCurrentFiber (setCurrentFiber f w) = Some f"
  by (auto simp: getCurrentFiber_def setCurrentFiber_def)

lemma getCurrentFiber_incrementHookIndex [simp]:
  "getCurrentFiber (incrementHookIndex w) = getCurrentFiber w"
  by (auto simp: getCurrentFiber_def incrementHookIndex_def)

lemma list_ex_zip_nth:
  "length xs = length ys \<Longrightarrow>
   list_ex (\<lambda>(a, b). P a b) (zip xs ys) = (\<exists>j<length ys. P (xs ! j) (ys ! j))"
  by (auto simp: list_ex_iff set_zip)

lemma depsChanged_lists:
  "depsChanged (DArr od) (DArr d)
     = (length od \<noteq> length d \<or> (\<exists>j<length d. \<not> object_is (od ! j) (d ! j)))"
  by (cases "length od = length d") (simp_all add: list_ex_zip_nth)

text \<open>The hook record that \<open>useEffect\<close> pushes.\<close>

lemma useEffect_pushes:
  assumes "useEffect (Some f) ds w = Inr w'" and "getCurrentFiber w = Some cur"
      and "fhooks (fdata cur) = Some hs"
  shows "\<exists>c hc. getCurrentFiber w'
           = Some (set_hooks (hs @ [EffectHook (Some f) c (if deps_truthy ds then ds else DNull) hc]) cur)"
proof -
  let ?old = "getPreviousHook cur (getCurrentHookIndex w)"
  let ?c = "case ?old of None \<Rightarrow> None | Some oh \<Rightarrow> hook_cleanup oh"
  let ?hc = "if ds = DUndefined then True
             else (case ?old of None \<Rightarrow> True | Some oh \<Rightarrow> areDependenciesChanged ds (hook_deps oh))"
  have "w' = incrementHookIndex (setCurrentFiber
              (set_hooks (hs @ [EffectHook (Some f) ?c (if deps_truthy ds then ds else DNull) ?hc]) cur) w)"
    using assms by (simp add: useEffect_def validateHookCall_def push_hook_def Let_def)
  then have "getCurrentFiber w'
      = Some (set_hooks (hs @ [EffectHook (Some f) ?c (if deps_truthy ds then ds else DNull) ?hc]) cur)"
    by (simp only: getCurrentFiber_incrementHookIndex getCurrentFiber_setCurrentFiber)
  then show ?thesis by blast
qed

lemma effect_step_trace:
  "trace (snd (effect_step (EffectHook (Some f) c d hc) alt i v))
     = trace v @ (if shouldRunEffect (old_hook_at alt i) d then [EffectRun (ef_id f)] else [])"
  using trace_effect_step[of "EffectHook (Some f) c d hc" alt i v]
  by (simp add: due_effect_def effect_events_def)

text \<open>
  C4: the hook that \<open>useEffect(f, deps)\<close> pushes is gated, when the effect pass reaches
  it, by the dependency list: with no list the effect is invoked after every render; with
  a list it is invoked on the first generation (no previous hook at its index), and
  afterwards iff the previous hook has no list, or the lengths differ, or some element is
  not \<open>Object.is\<close>-identical to the previous list's element at the same index. So an
  empty list, given again, never re-runs the effect.
\<close>

theorem effect_dependency_gating:
  assumes ue: "useEffect (Some f) ds w = Inr w'"
      and cur: "getCurrentFiber w = Some cur"
      and hs: "fhooks (fdata cur) = Some hs"
      and cur': "getCurrentFiber w' = Some cur'"
  shows "\<exists>h. fhooks (fdata cur') = Some (hs @ [h]) \<and> falternate cur' = falternate cur \<and>
           trace (snd (effect_step h (falternate cur') (length hs) v))
             = trace v @
               (if (case ds of
                      DArr d \<Rightarrow>
                        (case old_hook_at (falternate cur) (length hs) of
                           None \<Rightarrow> True
                         | Some oh \<Rightarrow>
                             (case hook_deps oh of
                                DArr od \<Rightarrow>
                                  length od \<noteq> length d
                                  \<or> (\<exists>j<length d. \<not> object_is (od ! j) (d ! j))
                              | _ \<Rightarrow> True))
                    | _ \<Rightarrow> True)
                then [EffectRun (ef_id f)] else [])"
proof -
  obtain c hc where
    g: "getCurrentFiber w'
          = Some (set_hooks (hs @ [EffectHook (Some f) c (if deps_truthy ds then ds else DNull) hc]) cur)"
    using useEffect_pushes[OF ue cur hs] by blast
  let ?d = "if deps_truthy ds then ds else DNull"
  let ?h = "EffectHook (Some f) c ?d hc"
  have c': "cur' = set_hooks (hs @ [?h]) cur" using g cur' by simp
  have a: "fhooks (fdata cur') = Some (hs @ [?h])" "falternate cur' = falternate cur"
    using c' by (simp_all add: set_hooks_def)
  have run: "shouldRunEffect (old_hook_at (falternate cur) (length hs)) ?d
               = (case ds of
                      DArr d \<Rightarrow>
                        (case old_hook_at (falternate cur) (length hs) of
                           None \<Rightarrow> True
                         | Some oh \<Rightarrow>
                             (case hook_deps oh of
                                DArr od \<Rightarrow>
                                  length od \<noteq> length d
                                  \<or> (\<exists>j<length d. \<not> object_is (od ! j) (d ! j))
                              | _ \<Rightarrow> True))
                    | _ \<Rightarrow> True)"
  proof (cases ds)
    case (DArr d)
    show ?thesis
    proof (cases "old_hook_at (falternate cur) (length hs)")
      case None
      then show ?thesis using DArr by (simp add: shouldRunEffect_def)
    next
      case (Some oh)
      then show ?thesis using DArr
        by (cases "hook_deps oh")
           (simp_all add: shouldRunEffect_def depsChanged_lists del: depsChanged.simps(1))
    qed
  qed (simp_all add: shouldRunEffect_def)
  show ?thesis
    using a effect_step_trace[of f c ?d hc "falternate cur" "length hs" v] run
    by (intro exI[of _ ?h]) simp
qed


theorem effect_dependency_gating_witness:
  "\<exists>h. fhooks (fdata (the (getCurrentFiber (ex_effect_world 2)))) = Some [h]
       \<and> trace (snd (effect_step h (falternate ex_rerender_unit) 0 init_world))
           = [EffectRun 5]"
proof -
  let ?w = "enter ex_rerender_unit init_world"
  have cur: "getCurrentFiber ?w = Some ex_rerender_unit" by simp
  have hs: "fhooks (fdata ex_rerender_unit) = Some []"
    by (simp add: ex_rerender_unit_def ex_unit_def)
  have "\<exists>w'. useEffect (Some (ex_effect 5)) (DArr [VNum 2]) ?w = Inr w'"
    using cur hs by (simp add: useEffect_def validateHookCall_def push_hook_def Let_def)
  then have ue: "useEffect (Some (ex_effect 5)) (DArr [VNum 2]) ?w = Inr (ex_effect_world 2)"
    by (auto simp: ex_effect_world_def)
  obtain c hc where "getCurrentFiber (ex_effect_world 2)
      = Some (set_hooks ([] @ [EffectHook (Some (ex_effect 5)) c
                 (if deps_truthy (DArr [VNum 2]) then DArr [VNum 2] else DNull) hc])
               ex_rerender_unit)"
    using useEffect_pushes[OF ue cur hs] by blast
  then have cur': "getCurrentFiber (ex_effect_world 2)
                     = Some (the (getCurrentFiber (ex_effect_world 2)))"
    by simp
  have old: "old_hook_at (falternate ex_rerender_unit) 0
               = Some (EffectHook (Some (ex_effect 5)) None (DArr [VNum 1]) True)"
    by (simp add: ex_rerender_unit_def ex_unit_def ex_hook_def old_hook_at_def)
  obtain h where
    h: "fhooks (fdata (the (getCurrentFiber (ex_effect_world 2)))) = Some ([] @ [h])"
       "falternate (the (getCurrentFiber (ex_effect_world 2))) = falternate ex_rerender_unit"
       "trace (snd (effect_step h (falternate (the (getCurrentFiber (ex_effect_world 2)))) 0
                      init_world)) = [EffectRun 5]"
    using effect_dependency_gating[OF ue cur hs cur', of init_world] old
    by (auto simp: object_is_def init_world_def ex_effect_def)
  show ?thesis using h by (intro exI[of _ h]) simp
qed

section \<open>Positional reconciliation\<close>

lemma reconcile_loop_step:
  "\<not> (es = [] \<and> old = None) \<Longrightarrow> \<not> (index \<noteq> 0 \<and> next_element es \<noteq> None \<and> prevNull) \<Longrightarrow>
   reconcile_loop par index es old prevNull acc dels w
     = reconcile_loop par (Suc index) (tl es) (next_old old)
         (new_fiber par old (next_element es) = None)
         (acc @ option_list (new_fiber par old (next_element es)))
         (dels @ option_list (removal old (next_element es)))
         (add_removal (removal old (next_element es)) w)"
  by (subst reconcile_loop.simps) auto

lemma reconcile_loop_no_crash:
  "reconcile_loop par index es old prevNull acc dels w = Inr r \<Longrightarrow>
   \<not> (es = [] \<and> old = None) \<Longrightarrow> \<not> (index \<noteq> 0 \<and> next_element es \<noteq> None \<and> prevNull)"
  by (subst (asm) reconcile_loop.simps) (auto split: if_splits)

text \<open>The old child at position \<open>j\<close> of a sibling chain.\<close>

fun old_at :: "fiber option \<Rightarrow> nat \<Rightarrow> fiber option" where
  "old_at old 0 = old"
| "old_at old (Suc j) = old_at (next_old old) j"

text \<open>The new units that the loop links, position by position.\<close>

fun units :: "pinfo list \<Rightarrow> element option list \<Rightarrow> fiber option \<Rightarrow> fiber list" where
  "units par [] old = []"
| "units par (e # es) old = option_list (new_fiber par old e) @ units par es (next_old old)"

lemma new_fiber_None [simp]: "new_fiber par old None = None"
  by (simp add: new_fiber_def)

lemma new_fiber_Some: "\<exists>u. new_fiber par old (Some el) = Some u"
  by (cases old) (simp_all add: new_fiber_def sameType_def)

lemma new_fiber_eq_None [simp]: "(new_fiber par old e = None) = (e = None)"
  using new_fiber_Some[of par old] by (cases e) auto

lemma reconcile_loop_units:
  "reconcile_loop par index es old prevNull acc dels w = Inr (acc', dels', w') \<Longrightarrow>
   acc' = acc @ units par es old"
proof (induction par index es old prevNull acc dels w rule: reconcile_loop.induct)
  case (1 par index es oldFiber prevNull acc dels w)
  show ?case
  proof (cases "es = [] \<and> oldFiber = None")
    case True
    then show ?thesis using "1.prems" by (simp add: reconcile_loop.simps)
  next
    case False
    have c: "\<not> (index \<noteq> 0 \<and> next_element es \<noteq> None \<and> prevNull)"
      using reconcile_loop_no_crash[OF "1.prems"(1) False] .
    have r: "reconcile_loop par (Suc index) (tl es) (next_old oldFiber)
               (new_fiber par oldFiber (next_element es) = None)
               (acc @ option_list (new_fiber par oldFiber (next_element es)))
               (dels @ option_list (removal oldFiber (next_element es)))
               (add_removal (removal oldFiber (next_element es)) w) = Inr (acc', dels', w')"
      using "1.prems"(1) reconcile_loop_step[OF False c] by simp
    have "acc' = (acc @ option_list (new_fiber par oldFiber (next_element es)))
                   @ units par (tl es) (next_old oldFiber)"
      using "1.IH"[OF False c r] .
    then show ?thesis by (cases es) (simp_all add: next_element_def)
  qed
qed

lemma reconcile_loop_no_gap:
  "reconcile_loop par index es old prevNull acc dels w = Inr (acc', dels', w') \<Longrightarrow>
   j < length es \<Longrightarrow> es ! j \<noteq> None \<Longrightarrow>
   (\<forall>k<j. es ! k \<noteq> None) \<and> \<not> (prevNull \<and> index \<noteq> 0)"
proof (induction par index es old prevNull acc dels w arbitrary: j rule: reconcile_loop.induct)
  case (1 par index es oldFiber prevNull acc dels w)
  from "1.prems"(2) obtain e rest where es: "es = e # rest" by (cases es) auto
  then have False: "\<not> (es = [] \<and> oldFiber = None)" by simp
  have c: "\<not> (index \<noteq> 0 \<and> next_element es \<noteq> None \<and> prevNull)"
    using reconcile_loop_no_crash[OF "1.prems"(1) False] .
  have r: "reconcile_loop par (Suc index) rest (next_old oldFiber)
               (new_fiber par oldFiber e = None)
               (acc @ option_list (new_fiber par oldFiber e))
               (dels @ option_list (removal oldFiber e))
               (add_removal (removal oldFiber e) w) = Inr (acc', dels', w')"
    using "1.prems"(1) reconcile_loop_step[OF False c] es by (simp add: next_element_def)
  show ?case
  proof (cases j)
    case 0
    then show ?thesis using c es "1.prems"(3) by (auto simp: next_element_def)
  next
    case (Suc j')
    have j': "j' < length rest" "rest ! j' \<noteq> None" using Suc es "1.prems"(2,3) by auto
    have ih: "(\<forall>k<j'. rest ! k \<noteq> None) \<and> \<not> (new_fiber par oldFiber e = None \<and> Suc index \<noteq> 0)"
      using "1.IH"[OF False c, of j'] r j' es by (simp add: next_element_def)
    then have e: "e \<noteq> None" by simp
    have "\<forall>k<j. es ! k \<noteq> None"
    proof (intro allI impI)
      fix k assume "k < j"
      then show "es ! k \<noteq> None" using ih e es Suc by (cases k) auto
    qed
    moreover have "\<not> (prevNull \<and> index \<noteq> 0)" using c e es by (auto simp: next_element_def)
    ultimately show ?thesis by simp
  qed
qed

lemma units_nth:
  "j < length es \<Longrightarrow> \<forall>k\<le>j. es ! k \<noteq> None \<Longrightarrow>
   j < length (units par es old) \<and> new_fiber par (old_at old j) (es ! j) = Some (units par es old ! j)"
proof (induction es arbitrary: j old)
  case Nil
  then show ?case by simp
next
  case (Cons e es)
  from Cons.prems(2) obtain el where e: "e = Some el" by (cases e) auto
  obtain u where u: "new_fiber par old e = Some u"
    using e new_fiber_Some[of par old el] by auto
  show ?case
  proof (cases j)
    case 0
    then show ?thesis using u by simp
  next
    case (Suc j')
    have "j' < length es" "\<forall>k\<le>j'. es ! k \<noteq> None" using Suc Cons.prems by auto
    from Cons.IH[OF this, of "next_old old"] show ?thesis using Suc u by simp
  qed
qed

lemma units_origin:
  "u \<in> set (units par es old) \<Longrightarrow>
   \<exists>j<length es. new_fiber par (old_at old j) (es ! j) = Some u"
proof (induction es arbitrary: old)
  case Nil
  then show ?case by simp
next
  case (Cons e es)
  show ?case
  proof (cases "new_fiber par old e = Some u")
    case True
    then show ?thesis by (intro exI[of _ 0]) simp
  next
    case False
    then have "u \<in> set (units par es (next_old old))"
      using Cons.prems by (cases "new_fiber par old e") auto
    from Cons.IH[OF this] obtain j where "j < length es"
      "new_fiber par (old_at (next_old old) j) (es ! j) = Some u" by blast
    then show ?thesis by (intro exI[of _ "Suc j"]) simp
  qed
qed

text \<open>\<open>elements[j]\<close> for any \<open>j\<close>.\<close>

definition element_at :: "element option list \<Rightarrow> nat \<Rightarrow> element option" where
  "element_at es j = (if j < length es then es ! j else None)"

lemma pending_add_removal:
  "pending_deletions (add_removal r w) = pending_deletions w @ option_list r"
  by (cases r) (simp_all add: add_removal_def addDeletion_def pending_deletions_def)

lemma reconcile_loop_deletions:
  "reconcile_loop par index es old prevNull acc dels w = Inr (acc', dels', w') \<Longrightarrow>
   (\<exists>m. dels' = dels @ m \<and> pending_deletions w' = pending_deletions w @ m
        \<and> (\<forall>j o'. old_at old j = Some o' \<longrightarrow> \<not> sameType (Some o') (element_at es j)
              \<longrightarrow> mark_deletion o' \<in> set m))"
proof (induction par index es old prevNull acc dels w rule: reconcile_loop.induct)
  case (1 par index es oldFiber prevNull acc dels w)
  show ?case
  proof (cases "es = [] \<and> oldFiber = None")
    case True
    have "old_at None j = None" for j by (induction j) (simp_all add: next_old_def)
    then show ?thesis using "1.prems" True by (simp add: reconcile_loop.simps)
  next
    case False
    let ?e = "next_element es"
    let ?r = "removal oldFiber ?e"
    have c: "\<not> (index \<noteq> 0 \<and> ?e \<noteq> None \<and> prevNull)"
      using reconcile_loop_no_crash[OF "1.prems"(1) False] .
    have r: "reconcile_loop par (Suc index) (tl es) (next_old oldFiber)
               (new_fiber par oldFiber ?e = None)
               (acc @ option_list (new_fiber par oldFiber ?e))
               (dels @ option_list ?r) (add_removal ?r w) = Inr (acc', dels', w')"
      using "1.prems"(1) reconcile_loop_step[OF False c] by simp
    from "1.IH"[OF False c r] obtain m where
      m: "dels' = (dels @ option_list ?r) @ m"
         "pending_deletions w' = pending_deletions (add_removal ?r w) @ m"
         "\<forall>j o'. old_at (next_old oldFiber) j = Some o'
                 \<longrightarrow> \<not> sameType (Some o') (element_at (tl es) j) \<longrightarrow> mark_deletion o' \<in> set m"
      by blast
    have e0: "element_at es 0 = ?e"
      by (cases es) (simp_all add: element_at_def next_element_def)
    have eS: "element_at es (Suc j) = element_at (tl es) j" for j
      by (cases es) (simp_all add: element_at_def)
    have "\<forall>j o'. old_at oldFiber j = Some o' \<longrightarrow> \<not> sameType (Some o') (element_at es j)
            \<longrightarrow> mark_deletion o' \<in> set (option_list ?r @ m)"
    proof (intro allI impI)
      fix j o' assume a: "old_at oldFiber j = Some o'" "\<not> sameType (Some o') (element_at es j)"
      show "mark_deletion o' \<in> set (option_list ?r @ m)"
      proof (cases j)
        case 0
        then show ?thesis using a e0 by (simp add: removal_def)
      next
        case (Suc j')
        then show ?thesis using a eS m(3) by simp
      qed
    qed
    then show ?thesis
      using m(1,2) by (intro exI[of _ "option_list ?r @ m"]) (simp add: pending_add_removal)
  qed
qed


lemma old_at_None [simp]: "old_at None j = None"
  by (induction j) (simp_all add: next_old_def)

lemma old_at_chain:
  "j < length (chain_list old) \<Longrightarrow> old_at old j = Some (chain_list old ! j)"
proof (induction j arbitrary: old)
  case 0
  then show ?case by (cases old rule: chain_list.cases) simp_all
next
  case (Suc j)
  then show ?case by (cases old rule: chain_list.cases) (simp_all add: next_old_def)
qed

lemma chain_link_length [simp]: "length (chain_list (link_chain fs)) = length fs"
proof (induction fs)
  case Nil
  show ?case by simp
next
  case (Cons f fs)
  then show ?case by (cases f) simp
qed

lemma chain_link_nth:
  "j < length fs \<Longrightarrow>
   fdata (chain_list (link_chain fs) ! j) = fdata (fs ! j)
   \<and> falternate (chain_list (link_chain fs) ! j) = falternate (fs ! j)"
proof (induction fs arbitrary: j)
  case Nil
  then show ?case by simp
next
  case (Cons f fs)
  obtain d a c s dl where f: "f = Fiber d a c s dl" by (cases f)
  show ?case using Cons f by (cases j) simp_all
qed

lemma chain_link_set:
  "u \<in> set (chain_list (link_chain fs)) \<Longrightarrow>
   \<exists>f \<in> set fs. fdata u = fdata f \<and> falternate u = falternate f"
  by (metis chain_link_length chain_link_nth in_set_conv_nth)

lemma new_fiber_cases:
  assumes "new_fiber par old (Some el) = Some u"
  shows "(sameType old (Some el) \<and> (\<exists>o'. old = Some o' \<and> u = update_fiber par o' el))
         \<or> (\<not> sameType old (Some el) \<and> u = placement_fiber par el)"
  using assms by (cases old) (auto simp: new_fiber_def sameType_def split: if_splits)

text \<open>
  C5: in positional reconciliation, when the old child and the new element at position
  \<open>i\<close> have different kinds, the old child, tagged DELETION, is put on the unit's own
  deletion list and on the list handed to the commit, and the new unit at position \<open>i\<close>
  is tagged PLACEMENT, has no output handle and no alternate. A unit tagged UPDATE only
  ever comes from an old child and an element of the same kind at the same position.
\<close>

theorem positional_mismatch_replaces:
  assumes rc: "reconcileChildren wip es w = Inr (wip', w')"
      and i: "i < length es"
      and el: "es ! i = Some el"
      and io: "i < length (chain_list (old_children wip))"
      and diff: "\<not> sameType (Some (chain_list (old_children wip) ! i)) (Some el)"
  shows "(\<exists>ds. fdeletions wip' = Some ds
              \<and> mark_deletion (chain_list (old_children wip) ! i) \<in> set ds)
       \<and> mark_deletion (chain_list (old_children wip) ! i) \<in> set (pending_deletions w')
       \<and> feffectTag (fdata (mark_deletion (chain_list (old_children wip) ! i))) = Some DELETION
       \<and> i < length (chain_list (fchild wip'))
       \<and> feffectTag (fdata (chain_list (fchild wip') ! i)) = Some PLACEMENT
       \<and> fdom (fdata (chain_list (fchild wip') ! i)) = None
       \<and> falternate (chain_list (fchild wip') ! i) = None
       \<and> ftype (fdata (chain_list (fchild wip') ! i)) = Some (etype el)
       \<and> (\<forall>u \<in> set (chain_list (fchild wip')).
             feffectTag (fdata u) = Some UPDATE \<longrightarrow>
             (\<exists>j old e. j < length es \<and> es ! j = Some e
                  \<and> old_at (old_children wip) j = Some old
                  \<and> sameType (Some old) (Some e)
                  \<and> falternate u = Some old
                  \<and> fdom (fdata u) = fdom (fdata old)
                  \<and> ftype (fdata u) = ftype (fdata old)))"
proof -
  let ?old = "old_children wip"
  let ?par = "child_parent wip"
  let ?d0 = "case fdeletions wip of None \<Rightarrow> [] | Some ds \<Rightarrow> ds"
  let ?o = "chain_list ?old ! i"
  obtain acc dels where
    lp: "reconcile_loop ?par 0 es ?old True [] ?d0 w = Inr (acc, dels, w')"
    and wip': "wip' = Fiber (fdata wip) (falternate wip)
                 (if es = [] \<and> ?old = None then fchild wip else link_chain acc)
                 (fsibling wip) (Some dels)"
    using rc by (auto simp: reconcileChildren_def Let_def split: sum.splits)
  have ne: "es \<noteq> []" using i by auto
  have kids: "fchild wip' = link_chain acc" and dl: "fdeletions wip' = Some dels"
    using wip' ne by simp_all
  have acc: "acc = units ?par es ?old" using reconcile_loop_units[OF lp] by simp
  have oi: "old_at ?old i = Some ?o" using old_at_chain[OF io] .
  have ei: "element_at es i = Some el" using i el by (simp add: element_at_def)
  obtain m where m: "dels = ?d0 @ m" "pending_deletions w' = pending_deletions w @ m"
      "\<forall>j o'. old_at ?old j = Some o' \<longrightarrow> \<not> sameType (Some o') (element_at es j)
              \<longrightarrow> mark_deletion o' \<in> set m"
    using reconcile_loop_deletions[OF lp] by blast
  have inm: "mark_deletion ?o \<in> set m" using m(3) oi ei diff by simp
  have gap: "\<forall>k\<le>i. es ! k \<noteq> None"
  proof (intro allI impI)
    fix k assume "k \<le> i"
    then show "es ! k \<noteq> None"
      using reconcile_loop_no_gap[OF lp i] el by (cases "k = i") auto
  qed
  have un: "i < length acc" "new_fiber ?par (old_at ?old i) (es ! i) = Some (acc ! i)"
    using units_nth[OF i gap, of ?par ?old] acc by simp_all
  have pl: "acc ! i = placement_fiber ?par el"
    using new_fiber_cases[of ?par "old_at ?old i" el "acc ! i"] un(2) el oi diff by simp
  have nth: "fdata (chain_list (fchild wip') ! i) = fdata (placement_fiber ?par el)"
            "falternate (chain_list (fchild wip') ! i) = falternate (placement_fiber ?par el)"
    using chain_link_nth[OF un(1)] kids pl by simp_all
  have upd: "\<forall>u \<in> set (chain_list (fchild wip')).
             feffectTag (fdata u) = Some UPDATE \<longrightarrow>
             (\<exists>j old e. j < length es \<and> es ! j = Some e
                  \<and> old_at ?old j = Some old
                  \<and> sameType (Some old) (Some e)
                  \<and> falternate u = Some old
                  \<and> fdom (fdata u) = fdom (fdata old)
                  \<and> ftype (fdata u) = ftype (fdata old))"
  proof (intro ballI impI)
    fix u assume u: "u \<in> set (chain_list (fchild wip'))" "feffectTag (fdata u) = Some UPDATE"
    obtain f where f: "f \<in> set acc" "fdata u = fdata f" "falternate u = falternate f"
      using chain_link_set u(1) kids by metis
    obtain j where j: "j < length es" "new_fiber ?par (old_at ?old j) (es ! j) = Some f"
      using units_origin f(1) acc by blast
    obtain e where e: "es ! j = Some e" using j(2) by (cases "es ! j") auto
    have "\<not> (f = placement_fiber ?par e)"
      using u(2) f(2) by (auto simp: placement_fiber_def)
    then obtain o' where o': "sameType (old_at ?old j) (Some e)" "old_at ?old j = Some o'"
        "f = update_fiber ?par o' e"
      using new_fiber_cases[of ?par "old_at ?old j" e f] j(2) e by auto
    show "\<exists>j old e. j < length es \<and> es ! j = Some e
                  \<and> old_at ?old j = Some old
                  \<and> sameType (Some old) (Some e)
                  \<and> falternate u = Some old
                  \<and> fdom (fdata u) = fdom (fdata old)
                  \<and> ftype (fdata u) = ftype (fdata old)"
      using j(1) e o' f(2,3)
      by (intro exI[of _ j] exI[of _ o'] exI[of _ e]) (simp add: update_fiber_def)
  qed
  show ?thesis
    using dl m(1,2) inm un(1) kids nth upd
    by (simp add: placement_fiber_def mark_deletion_def)
qed


theorem positional_mismatch_replaces_witness:
  "mark_deletion (ex_child ''div'' ''a'' 1)
     \<in> set (pending_deletions
              (snd (projr (reconcileChildren
                     (ex_list_unit [ex_child ''div'' ''a'' 1] [ex_element ''span'' ''a''])
                     [ex_element ''span'' ''a''] init_world))))
   \<and> feffectTag (fdata (chain_list (fchild (fst (projr (reconcileChildren
                     (ex_list_unit [ex_child ''div'' ''a'' 1] [ex_element ''span'' ''a''])
                     [ex_element ''span'' ''a''] init_world)))) ! 0)) = Some PLACEMENT
   \<and> fdom (fdata (chain_list (fchild (fst (projr (reconcileChildren
                     (ex_list_unit [ex_child ''div'' ''a'' 1] [ex_element ''span'' ''a''])
                     [ex_element ''span'' ''a''] init_world)))) ! 0)) = None"
proof -
  let ?wip = "ex_list_unit [ex_child ''div'' ''a'' 1] [ex_element ''span'' ''a'']"
  let ?es = "[ex_element ''span'' ''a'']"
  let ?el = "Element (Host ''span'') (Props (Some (VStr ''a'')) [] [])"
  have olds: "chain_list (old_children ?wip) = [ex_child ''div'' ''a'' 1]"
    by (simp add: old_children_def ex_list_unit_def ex_child_def)
  have "\<exists>r. reconcileChildren ?wip ?es init_world = Inr r"
    by (simp add: reconcileChildren_def Let_def reconcile_loop.simps next_element_def
        ex_element_def old_children_def ex_list_unit_def ex_child_def next_old_def)
  then have rc: "reconcileChildren ?wip ?es init_world
                   = Inr (fst (projr (reconcileChildren ?wip ?es init_world)),
                          snd (projr (reconcileChildren ?wip ?es init_world)))"
    by auto
  have i: "0 < length ?es" by simp
  have el: "?es ! 0 = Some ?el" by (simp add: ex_element_def)
  have io: "0 < length (chain_list (old_children ?wip))" unfolding olds by simp
  have diff: "\<not> sameType (Some (chain_list (old_children ?wip) ! 0)) (Some ?el)"
    unfolding olds by (simp add: sameType_def ex_child_def)
  show ?thesis
    using positional_mismatch_replaces[OF rc i el io diff] unfolding olds by simp
qed

section \<open>Reordering a keyed list\<close>

text \<open>
  A \<open>ul\<close> whose old children are \<open>li\<close> units keyed \<open>a, b, c\<close> with the output nodes
  1, 2, 3, re-rendered with the same elements in the order \<open>c, a, b\<close>.
\<close>

definition ex_reorder_unit :: fiber where
  "ex_reorder_unit =
     ex_list_unit [ex_child ''li'' ''a'' 1, ex_child ''li'' ''b'' 2, ex_child ''li'' ''c'' 3]
       [ex_element ''li'' ''c'', ex_element ''li'' ''a'', ex_element ''li'' ''b'']"

text \<open>Of each child unit: its key, its tag and its output handle.\<close>

definition child_summary :: "fiber \<Rightarrow> (jsval option \<times> effect_tag option \<times> handle option) list" where
  "child_summary f =
     map (\<lambda>u. (pkey (fprops (fdata u)), feffectTag (fdata u), fdom (fdata u)))
         (chain_list (fchild f))"

text \<open>
  The keyed reconciler, called on that unit, pairs each element with the old unit of its
  key: every child is tagged \<open>UPDATE\<close> and keeps the node it had.
\<close>

lemma keyed_reconciler_reconciles_by_key:
  "child_summary (fst (projr (reconcileChildrenWithKeys ex_reorder_unit
        [ex_element ''li'' ''c'', ex_element ''li'' ''a'', ex_element ''li'' ''b''] init_world)))
     = [(Some (VStr ''c''), Some UPDATE, Some 3),
        (Some (VStr ''a''), Some UPDATE, Some 1),
        (Some (VStr ''b''), Some UPDATE, Some 2)]"
  by (simp add: child_summary_def ex_reorder_unit_def ex_list_unit_def
      ex_child_def ex_element_def reconcileChildrenWithKeys_def Let_def
      old_children_def new_fiber_def sameType_def key_or_index_def map_delete_def
      update_fiber_def child_parent_def init_world_def)

text \<open>
  C2: a keyed child list re-rendered in another order keeps, for every child, the output
  node the child had. The render path does not do this. \<open>updateHostComponent\<close> (and
  \<open>updateFunctionComponent\<close>) call the positional \<open>reconcileChildren\<close>; nothing on the render
  path calls \<open>reconcileChildrenWithKeys\<close>. For the children \<open>a, b, c\<close> with the nodes 1, 2, 3
  re-rendered as \<open>c, a, b\<close>, every child is tagged \<open>UPDATE\<close>, but the unit keyed \<open>c\<close> adopts
  node 1 (the node of \<open>a\<close>), the unit keyed \<open>a\<close> node 2 and the unit keyed \<open>b\<close> node 3.
\<close>

theorem render_path_reconciles_by_position:
  "child_summary (fst (projr (updateHostComponent ex_reorder_unit init_world)))
     = [(Some (VStr ''c''), Some UPDATE, Some 1),
        (Some (VStr ''a''), Some UPDATE, Some 2),
        (Some (VStr ''b''), Some UPDATE, Some 3)]"
  by (simp add: child_summary_def updateHostComponent_def ex_reorder_unit_def ex_list_unit_def
      ex_child_def ex_element_def reconcileChildren_def Let_def reconcile_loop.simps
      next_element_def old_children_def next_old_def new_fiber_def sameType_def
      update_fiber_def removal_def add_removal_def child_parent_def)

section \<open>What callbacks can do to the state\<close>

text \<open>
  A cleanup function or an effect callback acts on the state only through the setters it
  calls; the commit phase adds the log of invocations and the reports of the errors it
  catches. \<open>callback_steps w w'\<close>: \<open>w'\<close> is reached from \<open>w\<close> by such steps.
\<close>

inductive callback_steps :: "world \<Rightarrow> world \<Rightarrow> bool" where
  same: "callback_steps w w"
| schedule: "callback_steps w u \<Longrightarrow> callback_steps w (scheduleRerender u)"
| queue: "callback_steps w u \<Longrightarrow> callback_steps w (u\<lparr>updateQueues := q\<rparr>)"
| actions: "callback_steps w u \<Longrightarrow> callback_steps w (u\<lparr>actionQueues := q\<rparr>)"
| log: "callback_steps w u \<Longrightarrow> callback_steps w (u\<lparr>trace := t\<rparr>)"
| report: "callback_steps w u \<Longrightarrow> m \<noteq> WarnNoCurrentRoot \<Longrightarrow> callback_steps w (console_error m u)"

lemma callback_steps_trans:
  "callback_steps u v \<Longrightarrow> callback_steps w u \<Longrightarrow> callback_steps w v"
  by (induction rule: callback_steps.induct) (auto intro: callback_steps.intros)

lemma steps_setState: "callback_steps w (setState k a w)"
  by (auto simp: setState_def Let_def split: option.splits intro: callback_steps.intros)

lemma steps_dispatch: "callback_steps w (dispatch k a w)"
  by (auto simp: dispatch_def Let_def split: option.splits intro: callback_steps.intros)

lemma steps_run_call: "callback_steps w (run_call c w)"
  by (cases c) (simp_all add: steps_setState steps_dispatch)

lemma steps_run_calls: "callback_steps w (run_calls cs w)"
proof (induction cs arbitrary: w)
  case Nil
  show ?case by (simp add: callback_steps.same)
next
  case (Cons c cs)
  show ?case using callback_steps_trans[OF Cons.IH[of "run_call c w"] steps_run_call[of w c]]
    by simp
qed

lemma steps_call_cleanup: "callback_steps w (fst (call_cleanup c w))"
  unfolding call_cleanup_def fst_conv
  by (rule callback_steps_trans[OF steps_run_calls]) (rule callback_steps.log, rule callback_steps.same)

lemma steps_call_effect: "callback_steps w (fst (call_effect e w))"
  unfolding call_effect_def fst_conv
  by (rule callback_steps_trans[OF steps_run_calls]) (rule callback_steps.log, rule callback_steps.same)

lemma steps_try_cleanup: "callback_steps w (try_cleanup c i w)"
proof -
  obtain w1 b where r: "call_cleanup c w = (w1, b)" by (cases "call_cleanup c w")
  have s: "callback_steps w w1" using steps_call_cleanup[of w c] r by simp
  show ?thesis using r s by (auto simp: try_cleanup_def intro: callback_steps.report)
qed

lemma steps_cleanupEffects_step: "callback_steps w (snd (cleanupEffects_step h i w))"
  by (auto simp: cleanupEffects_step_def steps_try_cleanup callback_steps.same
      split: hook.split option.split)

lemma steps_cleanup_hooks: "callback_steps w (snd (cleanup_hooks hs i w))"
proof (induction hs arbitrary: i w)
  case Nil
  show ?case by (simp add: callback_steps.same)
next
  case (Cons h hs)
  obtain h1 w1 where s1: "cleanupEffects_step h i w = (h1, w1)"
    by (cases "cleanupEffects_step h i w")
  obtain hs2 w2 where s2: "cleanup_hooks hs (Suc i) w1 = (hs2, w2)"
    by (cases "cleanup_hooks hs (Suc i) w1")
  have a: "callback_steps w w1" using steps_cleanupEffects_step[of w h i] s1 by simp
  have b: "callback_steps w1 w2" using Cons.IH[of w1 "Suc i"] s2 by simp
  show ?case using s1 s2 callback_steps_trans[OF b a] by simp
qed

lemma steps_cleanup_unit: "callback_steps w (snd (cleanup_unit hooks w))"
proof (cases hooks)
  case None
  then show ?thesis by (simp add: cleanup_unit_def callback_steps.same)
next
  case (Some hs)
  obtain hs' w' where r: "cleanup_hooks hs 0 w = (hs', w')" by (cases "cleanup_hooks hs 0 w")
  then show ?thesis using Some steps_cleanup_hooks[of w hs 0] by (simp add: cleanup_unit_def)
qed

lemma steps_cleanupEffects: "callback_steps w (snd (cleanupEffects t w))"
proof (induction t w rule: cleanupEffects.induct)
  case (1 w)
  show ?case by (simp add: callback_steps.same)
next
  case (2 d a c s dl w)
  obtain h1 w1 where s1: "cleanup_unit (fhooks d) w = (h1, w1)"
    by (cases "cleanup_unit (fhooks d) w")
  obtain c' w2 where s2: "cleanupEffects c w1 = (c', w2)" by (cases "cleanupEffects c w1")
  obtain s' w3 where s3: "cleanupEffects s w2 = (s', w3)" by (cases "cleanupEffects s w2")
  have a: "callback_steps w w1" using steps_cleanup_unit[of w "fhooks d"] s1 by simp
  have b: "callback_steps w1 w2" using "2.IH"(1)[OF s1[symmetric]] s2 by simp
  have c: "callback_steps w2 w3" using "2.IH"(2)[OF s1[symmetric] s2[symmetric]] s3 by simp
  show ?case using s1 s2 s3 callback_steps_trans[OF c callback_steps_trans[OF b a]] by simp
qed

lemma steps_cleanup_step: "callback_steps w (cleanup_step h alt i w)"
  by (auto simp: cleanup_step_def steps_try_cleanup callback_steps.same
      split: hook.split option.split)

lemma steps_run_cleanups: "callback_steps w (run_cleanups hs alt i w)"
proof (induction hs arbitrary: i w)
  case Nil
  show ?case by (simp add: callback_steps.same)
next
  case (Cons h hs)
  show ?case
    using callback_steps_trans[OF Cons.IH[of "cleanup_step h alt i w" "Suc i"] steps_cleanup_step[of w h alt i]]
    by simp
qed

lemma steps_try_effect: "callback_steps w (snd (try_effect h f i w))"
proof (cases h)
  case (EffectHook e c d hc)
  obtain w1 res where r: "call_effect f w = (w1, res)" by (cases "call_effect f w")
  have s: "callback_steps w w1" using steps_call_effect[of w f] r by simp
  show ?thesis using EffectHook r s
    by (cases res) (auto simp: try_effect_def intro: callback_steps.report)
qed (simp_all add: try_effect_def callback_steps.same)

lemma steps_effect_step: "callback_steps w (snd (effect_step h alt i w))"
  by (auto simp: effect_step_def steps_try_effect callback_steps.same
      split: hook.split option.split)

lemma steps_run_effects: "callback_steps w (snd (run_effects hs alt i w))"
proof (induction hs arbitrary: i w)
  case Nil
  show ?case by (simp add: callback_steps.same)
next
  case (Cons h hs)
  obtain h1 w1 where s1: "effect_step h alt i w = (h1, w1)" by (cases "effect_step h alt i w")
  obtain hs2 w2 where s2: "run_effects hs alt (Suc i) w1 = (hs2, w2)"
    by (cases "run_effects hs alt (Suc i) w1")
  have a: "callback_steps w w1" using steps_effect_step[of w h alt i] s1 by simp
  have b: "callback_steps w1 w2" using Cons.IH[of w1 "Suc i"] s2 by simp
  show ?case using s1 s2 callback_steps_trans[OF b a] by simp
qed

lemma steps_effects_unit: "callback_steps w (snd (effects_unit hooks alt w))"
proof (cases hooks)
  case None
  then show ?thesis by (simp add: effects_unit_def callback_steps.same)
next
  case (Some hs)
  obtain hs' w' where r: "run_effects hs alt 0 (run_cleanups hs alt 0 w) = (hs', w')"
    by (cases "run_effects hs alt 0 (run_cleanups hs alt 0 w)")
  have "callback_steps (run_cleanups hs alt 0 w) w'"
    using steps_run_effects[of "run_cleanups hs alt 0 w" hs alt 0] r by simp
  then have "callback_steps w w'" using steps_run_cleanups callback_steps_trans by blast
  then show ?thesis using Some r by (simp add: effects_unit_def)
qed

lemma steps_runEffects: "callback_steps w (snd (runEffects t w))"
proof (induction t w rule: runEffects.induct)
  case (1 w)
  show ?case by (simp add: callback_steps.same)
next
  case (2 d a c s dl w)
  obtain h1 w1 where s1: "effects_unit (fhooks d) a w = (h1, w1)"
    by (cases "effects_unit (fhooks d) a w")
  obtain c' w2 where s2: "runEffects c w1 = (c', w2)" by (cases "runEffects c w1")
  obtain s' w3 where s3: "runEffects s w2 = (s', w3)" by (cases "runEffects s w2")
  have a: "callback_steps w w1" using steps_effects_unit[of w "fhooks d" a] s1 by simp
  have b: "callback_steps w1 w2" using "2.IH"(1)[OF s1[symmetric]] s2 by simp
  have c: "callback_steps w2 w3" using "2.IH"(2)[OF s1[symmetric] s2[symmetric]] s3 by simp
  show ?case using s1 s2 s3 callback_steps_trans[OF c callback_steps_trans[OF b a]] by simp
qed

text \<open>Callbacks leave the output tree alone, and the root units that exist.\<close>

lemma steps_output:
  "callback_steps w w' \<Longrightarrow>
     dom_kids w' = dom_kids w \<and> dom_next w' = dom_next w \<and> has_window w' = has_window w
     \<and> currentRoot w' = currentRoot w"
  by (induction rule: callback_steps.induct) (simp_all add: console_error_def)

lemma roots_scheduleRerender:
  "next_root w \<le> next_root (scheduleRerender w)
   \<and> (\<forall>a<next_root w. roots (scheduleRerender w) a = roots w a)"
  by (simp add: scheduleRerender_def startWorkLoop_def Let_def split: option.splits)

lemma steps_roots:
  "callback_steps w w' \<Longrightarrow>
     next_root w \<le> next_root w' \<and> (\<forall>a<next_root w. roots w' a = roots w a)"
proof (induction rule: callback_steps.induct)
  case (schedule w u)
  then show ?case using roots_scheduleRerender[of u] by auto
qed (simp_all add: console_error_def)

section \<open>Unmounting\<close>

text \<open>
  The output nodes at the top of a chain of units: a unit's own node, or, for a unit
  without one (a function component), those of its children.
\<close>

fun top_doms :: "fiber option \<Rightarrow> handle list" where
  "top_doms None = []"
| "top_doms (Some (Fiber d a c s dl)) =
     (case fdom d of Some h \<Rightarrow> [h] | None \<Rightarrow> top_doms c) @ top_doms s"

lemma contains_upto_self [simp]: "contains_upto n kids x x"
  by (cases n) simp_all

lemma dom_contains_child:
  "0 < dom_next w \<Longrightarrow> h \<in> set (dom_kids w p) \<Longrightarrow> dom_contains w p h"
  by (cases "dom_next w") (auto simp: dom_contains_def list_ex_iff intro!: bexI[of _ h])

lemma cleanup_hooks_none:
  "own_cleanups hs i = [] \<Longrightarrow> cleanup_hooks hs i w = (hs, w)"
proof (induction hs arbitrary: i)
  case Nil
  show ?case by simp
next
  case (Cons h hs)
  have a: "cleanupEffects_step h i w = (h, w)"
    using Cons.prems by (auto simp: cleanupEffects_step_def split: hook.splits option.splits)
  have b: "cleanup_hooks hs (Suc i) w = (hs, w)" using Cons.IH[of "Suc i"] Cons.prems by simp
  show ?case using a b by simp
qed

lemma cleanup_unit_none: "unit_cleanups hooks = [] \<Longrightarrow> cleanup_unit hooks w = (hooks, w)"
  by (cases hooks) (simp_all add: cleanup_unit_def unit_cleanups_def cleanup_hooks_none)

lemma cleanupEffects_none: "subtree_cleanups t = [] \<Longrightarrow> cleanupEffects t w = (t, w)"
proof (induction t arbitrary: w rule: subtree_cleanups.induct)
  case 1
  show ?case by simp
next
  case (2 d a c s dl)
  show ?case using 2 by (simp add: cleanup_unit_none)
qed

lemma own_cleanups_cleaned: "own_cleanups (fst (cleanup_hooks hs i w)) j = []"
proof (induction hs arbitrary: i j w)
  case Nil
  show ?case by simp
next
  case (Cons h hs)
  obtain h1 w1 where s1: "cleanupEffects_step h i w = (h1, w1)"
    by (cases "cleanupEffects_step h i w")
  obtain hs2 w2 where s2: "cleanup_hooks hs (Suc i) w1 = (hs2, w2)"
    by (cases "cleanup_hooks hs (Suc i) w1")
  have a: "(case h1 of EffectHook e (Some c) d hc \<Rightarrow> [(j, c)] | _ \<Rightarrow> []) = []"
    using s1 by (auto simp: cleanupEffects_step_def split: hook.splits option.splits)
  have b: "own_cleanups hs2 (Suc j) = []" using Cons.IH[of "Suc i" w1 "Suc j"] s2 by simp
  show ?case using s1 s2 a b by simp
qed

lemma unit_cleanups_cleaned: "unit_cleanups (fst (cleanup_unit hooks w)) = []"
proof (cases hooks)
  case None
  then show ?thesis by (simp add: cleanup_unit_def unit_cleanups_def)
next
  case (Some hs)
  obtain hs' w' where r: "cleanup_hooks hs 0 w = (hs', w')" by (cases "cleanup_hooks hs 0 w")
  then show ?thesis using Some own_cleanups_cleaned[of hs 0 w 0]
    by (simp add: cleanup_unit_def unit_cleanups_def)
qed

text \<open>
  \<open>cleanupEffects\<close> leaves no cleanup behind, and changes nothing else in the units.
\<close>

lemma cleanupEffects_cleaned:
  "subtree_cleanups (fst (cleanupEffects t w)) = []
   \<and> top_doms (fst (cleanupEffects t w)) = top_doms t"
proof (induction t w rule: cleanupEffects.induct)
  case (1 w)
  show ?case by simp
next
  case (2 d a c s dl w)
  obtain h1 w1 where s1: "cleanup_unit (fhooks d) w = (h1, w1)"
    by (cases "cleanup_unit (fhooks d) w")
  obtain c' w2 where s2: "cleanupEffects c w1 = (c', w2)" by (cases "cleanupEffects c w1")
  obtain s' w3 where s3: "cleanupEffects s w2 = (s', w3)" by (cases "cleanupEffects s w2")
  have a: "unit_cleanups h1 = []" using unit_cleanups_cleaned[of "fhooks d" w] s1 by simp
  have b: "subtree_cleanups c' = []" "top_doms c' = top_doms c"
    using "2.IH"(1)[OF s1[symmetric]] s2 by simp_all
  have c: "subtree_cleanups s' = []" "top_doms s' = top_doms s"
    using "2.IH"(2)[OF s1[symmetric] s2[symmetric]] s3 by simp_all
  show ?case using s1 s2 s3 a b c by (simp split: option.split)
qed

text \<open>
  \<open>commitDeletion\<close> on units without cleanups: it detaches their top nodes from the
  parent node, whose children they are.
\<close>

lemma commitDeletion_cleaned:
  "subtree_cleanups t = [] \<Longrightarrow> dom_kids w p = top_doms t @ rest \<Longrightarrow> 0 < dom_next w \<Longrightarrow>
     commitDeletion t (Some p) w = Inr (w\<lparr>dom_kids := (dom_kids w)(p := rest)\<rparr>)"
proof (induction t arbitrary: w rest rule: top_doms.induct)
  case 1
  have "(dom_kids w)(p := rest) = dom_kids w" using 1(2) by auto
  then show ?case by (simp add: commitDeletion.simps(1))
next
  case (2 d a c s dl)
  let ?f = "Fiber d a c s dl"
  have cl: "cleanupEffects (Some ?f) w = (Some ?f, w)"
    using cleanupEffects_none[OF "2.prems"(1)] .
  have cs: "subtree_cleanups s = []" and cc: "subtree_cleanups c = []"
    using "2.prems"(1) by simp_all
  show ?case
  proof (cases "fdom d")
    case (Some h)
    have k: "dom_kids w p = h # top_doms s @ rest" using "2.prems"(2) Some by simp
    then have co: "dom_contains w p h" using dom_contains_child[OF "2.prems"(3)] by simp
    let ?w2 = "w\<lparr>dom_kids := (dom_kids w)(p := top_doms s @ rest)\<rparr>"
    have rm: "removeChild p h w = Inr ?w2" using k by (simp add: removeChild_def)
    have ih: "commitDeletion s (Some p) ?w2 = Inr (w\<lparr>dom_kids := (dom_kids w)(p := rest)\<rparr>)"
    proof -
      have a: "dom_kids ?w2 p = top_doms s @ rest" by simp
      have b: "0 < dom_next ?w2" using "2.prems"(3) by simp
      have c: "?w2\<lparr>dom_kids := (dom_kids ?w2)(p := rest)\<rparr> = w\<lparr>dom_kids := (dom_kids w)(p := rest)\<rparr>"
        by simp
      show ?thesis using "2.IH"(2)[OF cs a b] unfolding c .
    qed
    have "commitDeletion (Some ?f) (Some p) w = commitDeletion s (Some p) ?w2"
      using Some co rm by (simp add: commitDeletion.simps(2)[of ?f] cl del: cleanupEffects.simps)
    then show ?thesis using ih by (simp add: fun_upd_def)
  next
    case None
    have k: "dom_kids w p = top_doms c @ (top_doms s @ rest)" using "2.prems"(2) None by simp
    let ?w2 = "w\<lparr>dom_kids := (dom_kids w)(p := top_doms s @ rest)\<rparr>"
    have ih1: "commitDeletion c (Some p) w = Inr ?w2"
      using "2.IH"(1)[OF None cc k "2.prems"(3)] .
    have ih2: "commitDeletion s (Some p) ?w2 = Inr (w\<lparr>dom_kids := (dom_kids w)(p := rest)\<rparr>)"
    proof -
      have a: "dom_kids ?w2 p = top_doms s @ rest" by simp
      have b: "0 < dom_next ?w2" using "2.prems"(3) by simp
      have c: "?w2\<lparr>dom_kids := (dom_kids ?w2)(p := rest)\<rparr> = w\<lparr>dom_kids := (dom_kids w)(p := rest)\<rparr>"
        by simp
      show ?thesis using "2.IH"(2)[OF cs a b] unfolding c .
    qed
    have "commitDeletion (Some ?f) (Some p) w = commitDeletion s (Some p) ?w2"
      using None ih1 by (simp add: commitDeletion.simps(2)[of ?f] cl del: cleanupEffects.simps)
    then show ?thesis using ih2 by (simp add: fun_upd_def)
  qed
qed

text \<open>
  \<open>commitDeletion\<close> in general: every cleanup of the removed units is invoked once, in
  tree order, and the top nodes are detached.
\<close>

lemma commitDeletion_removes:
  assumes "dom_kids w p = top_doms (Some f) @ rest" and "0 < dom_next w"
  shows "\<exists>w'. commitDeletion (Some f) (Some p) w = Inr w'
           \<and> dom_kids w' = (dom_kids w)(p := rest)
           \<and> trace w' = trace w @ cleanup_events (subtree_cleanups (Some f))
           \<and> callback_steps w (w'\<lparr>dom_kids := dom_kids w\<rparr>)"
proof -
  obtain f' w1 where r: "cleanupEffects (Some f) w = (f', w1)"
    by (cases "cleanupEffects (Some f) w")
  have st: "callback_steps w w1" using steps_cleanupEffects[of w "Some f"] r by simp
  have fr: "dom_kids w1 = dom_kids w" "dom_next w1 = dom_next w"
    using steps_output[OF st] by simp_all
  have tr: "trace w1 = trace w @ cleanup_events (subtree_cleanups (Some f))"
    using cleanupEffects_log[of "Some f" w] r by simp
  have cl: "subtree_cleanups f' = []" "top_doms f' = top_doms (Some f)"
    using cleanupEffects_cleaned[of "Some f" w] r by simp_all
  obtain g where g: "f' = Some g"
    using r by (cases f) (auto split: prod.splits)
  have same: "fdom (fdata g) = fdom (fdata f)"
    using r g by (cases f) (auto split: prod.splits)
  have k1: "dom_kids w1 p = top_doms f' @ rest" using assms(1) fr cl by simp
  have d1: "0 < dom_next w1" using assms(2) fr by simp
  have whole: "commitDeletion f' (Some p) w1 = Inr (w1\<lparr>dom_kids := (dom_kids w1)(p := rest)\<rparr>)"
    using commitDeletion_cleaned[OF cl(1) k1 d1] .
  have again: "cleanupEffects (Some g) w1 = (Some g, w1)"
    using cleanupEffects_none[of "Some g" w1] cl(1) g by simp
  have "commitDeletion (Some f) (Some p) w = commitDeletion (Some g) (Some p) w1"
  proof (cases "fdom (fdata f)")
    case (Some h)
    have "h \<in> set (dom_kids w p)" using assms(1) Some by (cases f) simp
    then have co: "dom_contains w p h" "dom_contains w1 p h"
      using dom_contains_child[of w h p] dom_contains_child[of w1 h p] assms(2) fr by simp_all
    show ?thesis
      using Some same co r g again
      by (simp add: commitDeletion.simps(2)[of f] commitDeletion.simps(2)[of g]
          del: cleanupEffects.simps)
  next
    case None
    show ?thesis
      using None same r g again
      by (simp add: commitDeletion.simps(2)[of f] commitDeletion.simps(2)[of g]
          del: cleanupEffects.simps)
  qed
  then have res: "commitDeletion (Some f) (Some p) w = Inr (w1\<lparr>dom_kids := (dom_kids w1)(p := rest)\<rparr>)"
    using whole g by simp
  have "(w1\<lparr>dom_kids := (dom_kids w1)(p := rest)\<rparr>)\<lparr>dom_kids := dom_kids w\<rparr> = w1"
    using fr by simp
  then have "callback_steps w ((w1\<lparr>dom_kids := (dom_kids w1)(p := rest)\<rparr>)\<lparr>dom_kids := dom_kids w\<rparr>)"
    using st by simp
  then show ?thesis using res tr fr by simp
qed

lemma top_doms_mark_deletion [simp]: "top_doms (Some (mark_deletion t)) = top_doms (Some t)"
  by (cases t) (simp add: mark_deletion_def)

lemma subtree_cleanups_mark_deletion [simp]:
  "subtree_cleanups (Some (mark_deletion t)) = subtree_cleanups (Some t)"
  by (cases t) (simp add: mark_deletion_def)

lemma fparent_mark_deletion [simp]: "fparent (fdata (mark_deletion t)) = fparent (fdata t)"
  by (simp add: mark_deletion_def)

lemma runEffects_bare:
  "fhooks d = None \<Longrightarrow> runEffects (Some (Fiber d a None None dl)) w = (Some (Fiber d a None None dl), w)"
  by (simp add: effects_unit_def)

text \<open>
  The render phase of \<open>render(null, container)\<close> over a committed tree whose root has the
  one child \<open>t\<close>: the new root has no child, and \<open>t\<close> is listed for deletion.
\<close>

lemma render_null_phase:
  assumes cr: "currentRoot w = Some r" and rc: "rootContainer w = Some c"
    and rn: "r < next_root w"
    and ch: "fchild (rc_fiber (roots w r)) = Some t" and sb: "fsibling t = None"
  shows "\<exists>wr. render_loop comps deadline (render None c w) = Inr wr
           \<and> nextUnitOfWork wr = None \<and> wipRoot wr = Some (next_root w)
           \<and> pending_deletions wr = [mark_deletion t]
           \<and> fchild (rc_fiber (roots wr (next_root w))) = None
           \<and> fsibling (rc_fiber (roots wr (next_root w))) = None
           \<and> fhooks (fdata (rc_fiber (roots wr (next_root w)))) = None
           \<and> fdeletions (rc_fiber (roots wr (next_root w))) = Some [mark_deletion t]
           \<and> dom_kids wr = dom_kids w \<and> dom_next wr = dom_next w \<and> trace wr = trace w
           \<and> next_root wr = Suc (next_root w)"
proof -
  let ?n = "next_root w"
  let ?w0 = "render None c w"
  let ?d = "\<lparr>ftype = None, fprops = Props None [] [None], fdom = Some c, fparent = [],
             feffectTag = None, fhooks = None, fctx = []\<rparr>"
  let ?f0 = "Fiber ?d (Some (rc_fiber (roots w r))) None None None"
  have ne: "r \<noteq> ?n" using rn by simp
  have nu: "nextUnitOfWork ?w0 = Some (?n, [])"
    using rc by (simp add: render_def Let_def startWorkLoop_def)
  have rv: "root_view ?w0 ?n = ?f0"
    using rc cr ne by (simp add: render_def Let_def startWorkLoop_def root_view_def root_fiber_def)
  have pd: "pending_deletions (enter ?f0 ?w0) = []"
    using rc by (simp add: render_def Let_def startWorkLoop_def enter_def pending_deletions_def)
  let ?w1 = "addDeletion (mark_deletion t) (enter ?f0 ?w0)"
  let ?f1 = "Fiber ?d (Some (rc_fiber (roots w r))) None None (Some [mark_deletion t])"
  have rl: "reconcile_loop (child_parent ?f0) 0 [None] (Some t) True [] [] (enter ?f0 ?w0)
              = Inr ([], [mark_deletion t], ?w1)"
    using sb
    by (simp add: reconcile_loop.simps next_element_def next_old_def removal_def sameType_def
        add_removal_def)
  have uh: "updateHostComponent ?f0 (enter ?f0 ?w0) = Inr (?f1, ?w1)"
    using ch rl by (simp add: updateHostComponent_def reconcileChildren_def old_children_def)
  let ?w3 = "(store_root ?n ?f1 (setCurrentFiber ?f1 ?w1))\<lparr>nextUnitOfWork := None\<rparr>"
  have nx: "next_up ?f1 [] = None"
    by (simp add: next_up.simps[of _ "[]"] parent_path_def)
  have pu: "performUnitOfWork comps ?n [] ?w0 = Inr ?w3"
    using rv uh nx by (simp add: performUnitOfWork_def is_function_def Let_def)
  have rl2: "render_loop comps deadline ?w0 = Inr ?w3"
  proof (cases deadline)
    case Nil
    then show ?thesis using nu pu by simp
  next
    case (Cons b rest)
    have "nextUnitOfWork ?w3 = None" by simp
    then have "render_loop comps rest ?w3 = Inr ?w3" by simp
    then show ?thesis using Cons nu pu by simp
  qed
  have p1: "nextUnitOfWork ?w3 = None" by simp
  have p2: "wipRoot ?w3 = Some ?n"
    using rc by (simp add: store_root_def setCurrentFiber_def addDeletion_def enter_def
        render_def Let_def startWorkLoop_def)
  have p3: "pending_deletions ?w3 = [mark_deletion t]"
    using rc by (simp add: store_root_def setCurrentFiber_def addDeletion_def enter_def
        render_def Let_def startWorkLoop_def pending_deletions_def)
  have p4: "rc_fiber (roots ?w3 ?n) = Fiber ?d None None None (Some [mark_deletion t])"
    by (simp add: store_root_def)
  have p5: "dom_kids ?w3 = dom_kids w \<and> dom_next ?w3 = dom_next w \<and> trace ?w3 = trace w
            \<and> next_root ?w3 = Suc ?n"
    using rc by (simp add: store_root_def setCurrentFiber_def addDeletion_def enter_def
        render_def Let_def startWorkLoop_def)
  show ?thesis using rl2 p1 p2 p3 p4 p5 by simp
qed


lemma runEffects_leaf:
  "fhooks (fdata f) = None \<Longrightarrow> fchild f = None \<Longrightarrow> fsibling f = None \<Longrightarrow>
     runEffects (Some f) w = (Some f, w)"
  by (cases f) (simp add: effects_unit_def)

text \<open>\<open>workLoop\<close> when the render phase completes in this call.\<close>

lemma workLoop_completes:
  assumes "render_loop comps deadline w = Inr w1" and "nextUnitOfWork w1 = None"
    and "wipRoot w1 = Some r"
  shows "workLoop comps deadline w =
           (case commit_and_swap r w1 of
              Inl e \<Rightarrow> Inl e
            | Inr w2 \<Rightarrow> Inr (reschedule (run_root_effects r w2)))"
  using assms by (simp add: workLoop_def split: sum.splits)

text \<open>
  C6: \<open>render(null, container)\<close> on a container that holds a committed tree (the root has
  the one child \<open>t\<close>, whose top output nodes are the children of the container): the
  render phase gives a root without child and lists \<open>t\<close>, tagged \<open>DELETION\<close>; the work
  loop then succeeds, the container is left without children, every cleanup registered in
  the tree is invoked exactly once (nothing else is invoked), and the committed tree is the
  empty one.
\<close>

theorem render_null_unmounts:
  assumes cr: "currentRoot w = Some r" and rc: "rootContainer w = Some c"
    and rn: "r < next_root w"
    and ch: "fchild (rc_fiber (roots w r)) = Some t" and sb: "fsibling t = None"
    and dp: "find_dom_parent (fparent (fdata t)) = Some c"
    and dk: "dom_kids w c = top_doms (Some t)" and dn: "0 < dom_next w"
  shows "\<exists>wr w'. render_loop comps deadline (render None c w) = Inr wr
           \<and> pending_deletions wr = [mark_deletion t]
           \<and> feffectTag (fdata (mark_deletion t)) = Some DELETION
           \<and> fchild (rc_fiber (roots wr (next_root w))) = None
           \<and> workLoop comps deadline (render None c w) = Inr w'
           \<and> dom_kids w' c = []
           \<and> trace w' = trace w @ cleanup_events (subtree_cleanups (Some t))
           \<and> currentRoot w' = Some (next_root w)
           \<and> fchild (rc_fiber (roots w' (next_root w))) = None"
proof -
  let ?n = "next_root w"
  obtain wr where rl: "render_loop comps deadline (render None c w) = Inr wr"
    and nu: "nextUnitOfWork wr = None" and wr: "wipRoot wr = Some ?n"
    and pd: "pending_deletions wr = [mark_deletion t]"
    and fc: "fchild (rc_fiber (roots wr ?n)) = None"
    and fs: "fsibling (rc_fiber (roots wr ?n)) = None"
    and fh: "fhooks (fdata (rc_fiber (roots wr ?n))) = None"
    and fr: "dom_kids wr = dom_kids w" "dom_next wr = dom_next w" "trace wr = trace w"
    and nr: "next_root wr = Suc ?n"
    using render_null_phase[OF cr rc rn ch sb, of comps deadline] by blast
  have k: "dom_kids wr c = top_doms (Some (mark_deletion t)) @ []" using dk fr by simp
  have d: "0 < dom_next wr" using dn fr by simp
  obtain wc where cd: "commitDeletion (Some (mark_deletion t)) (Some c) wr = Inr wc"
    and ck: "dom_kids wc = (dom_kids wr)(c := [])"
    and ct: "trace wc = trace wr @ cleanup_events (subtree_cleanups (Some (mark_deletion t)))"
    and cs: "callback_steps wr (wc\<lparr>dom_kids := dom_kids wr\<rparr>)"
    using commitDeletion_removes[OF k d] by blast
  have ro: "roots wc ?n = roots wr ?n" using steps_roots[OF cs] nr by simp
  have hw: "has_window wc = has_window wr" using steps_output[OF cs] by simp
  have cds: "commit_deletions [mark_deletion t] wr = Inr wc" using cd dp by simp
  have rvc: "fchild (root_view wr ?n) = None" using fc by (simp add: root_view_def Let_def)
  have cr1: "commitRoot (root_view wr ?n) (pending_deletions wr) wr = Inr wc"
    by (simp add: commitRoot_def pd cds rvc del: commit_deletions.simps)
  let ?w2 = "wc\<lparr>currentRoot := Some ?n, wipRoot := None, globalDeletions := []\<rparr>"
  let ?w2' = "if has_window ?w2 then ?w2\<lparr>win_deletions := None\<rparr> else ?w2"
  have sw: "commit_and_swap ?n wr = Inr ?w2'" using cr1 by (simp add: commit_and_swap_def Let_def)
  have ro2: "roots ?w2' ?n = roots wr ?n" using ro by simp
  let ?rv = "root_view ?w2' ?n"
  have leaf: "fhooks (fdata ?rv) = None" "fchild ?rv = None" "fsibling ?rv = None"
    using ro2 fc fs fh by (simp_all add: root_view_def Let_def)
  have re: "run_root_effects ?n ?w2' = store_root ?n ?rv ?w2'"
    using runEffects_leaf[OF leaf, of ?w2'] by (simp add: run_root_effects_def)
  let ?w' = "reschedule (store_root ?n ?rv ?w2')"
  have wl: "workLoop comps deadline (render None c w) = Inr ?w'"
    using workLoop_completes[OF rl nu wr] sw re by simp
  have r1: "dom_kids ?w' c = []" using ck by (simp add: reschedule_def store_root_def)
  have r2: "trace ?w' = trace w @ cleanup_events (subtree_cleanups (Some t))"
    using ct fr by (simp add: reschedule_def store_root_def)
  have r3: "currentRoot ?w' = Some ?n" by (simp add: reschedule_def store_root_def)
  have r4: "fchild (rc_fiber (roots ?w' ?n)) = None"
    using leaf by (simp add: reschedule_def store_root_def)
  have r5: "feffectTag (fdata (mark_deletion t)) = Some DELETION" by (simp add: mark_deletion_def)
  show ?thesis using rl pd fc wl r1 r2 r3 r4 r5 by blast
qed

definition ex_app_effect :: effect_fn where
  "ex_app_effect = \<lparr>ef_id = 1, ef_calls = [], ef_result = ReturnsCleanup (ex_cleanup 7)\<rparr>"

definition ex_app :: "nat \<Rightarrow> component" where
  "ex_app i p w =
     (case useEffect (Some ex_app_effect) DUndefined w of
        Inl e \<Rightarrow> Inl e
      | Inr w1 \<Rightarrow> Inr (Single (Some (Element (Host ''div'') (Props None [] []))), w1))"

definition ex_app_element :: "element option" where
  "ex_app_element = Some (Element (Func 0 ''App'' '''') (Props None [] []))"

definition ex_mounted :: world where
  "ex_mounted = projr (workLoop ex_app [False, False, False]
                         (render ex_app_element 0 (init_world\<lparr>dom_next := 1\<rparr>)))"

lemmas run_defs = render_def workLoop_def performUnitOfWork_def updateFunctionComponent_def
  updateHostComponent_def reconcileChildren_def commit_and_swap_def commitRoot_def
  run_root_effects_def reschedule_def startWorkLoop_def root_view_def store_root_def
  root_fiber_def enter_def is_function_def Let_def init_world_def
  reconcile_loop.simps next_element_def next_old_def removal_def sameType_def add_removal_def
  new_fiber_def placement_fiber_def update_fiber_def child_parent_def old_children_def
  pending_deletions_def addDeletion_def next_up.simps parent_path_def
  createDom_def set_dom_def reusable_dom_def appendChild_def
  useEffect_def validateHookCall_def getCurrentFiber_def getCurrentHookIndex_def
  getPreviousHook_def old_hook_at_def push_hook_def set_hooks_def setCurrentFiber_def
  incrementHookIndex_def deps_truthy.simps
  effects_unit_def effect_step_def cleanup_step_def try_effect_def call_effect_def
  shouldRunEffect_def shouldRunCleanup_def
  ex_app_def ex_app_effect_def ex_app_element_def ex_cleanup_def

lemma ex_mounted_trace: "trace ex_mounted = [RenderRun 0, EffectRun 1]"
  unfolding ex_mounted_def by (simp add: run_defs)

definition ex_mounted_child :: fiber where
  "ex_mounted_child = the (fchild (rc_fiber (roots ex_mounted 0)))"

lemma ex_mounted_facts:
  "currentRoot ex_mounted = Some 0" "rootContainer ex_mounted = Some 0"
  "next_root ex_mounted = 1" "dom_next ex_mounted = 2"
  "dom_kids ex_mounted 0 = [1]"
  unfolding ex_mounted_def by (simp_all add: run_defs)

lemma ex_mounted_child_eq:
  "fchild (rc_fiber (roots ex_mounted 0)) =
     Some (Fiber \<lparr>ftype = Some (Func 0 ''App'' ''''), fprops = Props None [] [], fdom = None,
                  fparent = [\<lparr>p_dom = Some 0, p_ctx = []\<rparr>], feffectTag = Some PLACEMENT,
                  fhooks = Some [EffectHook (Some ex_app_effect) (Some (ex_cleanup 7)) DNull True],
                  fctx = []\<rparr>
             None
             (Some (Fiber \<lparr>ftype = Some (Host ''div''), fprops = Props None [] [], fdom = Some 1,
                           fparent = [\<lparr>p_dom = None, p_ctx = []\<rparr>, \<lparr>p_dom = Some 0, p_ctx = []\<rparr>],
                           feffectTag = Some PLACEMENT, fhooks = None, fctx = []\<rparr>
                     None None None (Some [])))
             None (Some []))"
  unfolding ex_mounted_def by (simp add: run_defs)

theorem render_null_unmounts_witness:
  "\<exists>w'. workLoop ex_app [] (render None 0 ex_mounted) = Inr w'
        \<and> dom_kids ex_mounted 0 = [1] \<and> dom_kids w' 0 = []
        \<and> trace w' = [RenderRun 0, EffectRun 1, CleanupRun 7]
        \<and> currentRoot w' = Some 1 \<and> fchild (rc_fiber (roots w' 1)) = None"
proof -
  have ch: "fchild (rc_fiber (roots ex_mounted 0)) = Some ex_mounted_child"
    by (simp add: ex_mounted_child_def ex_mounted_child_eq)
  have sb: "fsibling ex_mounted_child = None"
    by (simp add: ex_mounted_child_def ex_mounted_child_eq)
  have dp: "find_dom_parent (fparent (fdata ex_mounted_child)) = Some 0"
    by (simp add: ex_mounted_child_def ex_mounted_child_eq)
  have dk: "dom_kids ex_mounted 0 = top_doms (Some ex_mounted_child)"
    by (simp add: ex_mounted_child_def ex_mounted_child_eq ex_mounted_facts)
  have cl: "cleanup_events (subtree_cleanups (Some ex_mounted_child)) = [CleanupRun 7]"
    by (simp add: ex_mounted_child_def ex_mounted_child_eq unit_cleanups_def cleanup_events_def
        ex_cleanup_def)
  show ?thesis
    using render_null_unmounts[of ex_mounted 0 0 ex_mounted_child ex_app "[]", OF _ _ _ ch sb dp dk]
      cl ex_mounted_trace
    by (auto simp: ex_mounted_facts)
qed

section \<open>The committed root during the effect pass\<close>

text \<open>The number of updates dropped with the warning that there is no root to re-render.\<close>

definition warnings :: "world \<Rightarrow> nat" where
  "warnings w = length (filter (\<lambda>m. m = WarnNoCurrentRoot) (console w))"

text \<open>
  What \<open>scheduleRerender\<close> does when there is a committed root \<open>r\<close>: a new root unit, whose
  \<open>alternate\<close> is \<open>r\<close>, becomes the work-in-progress root and the next unit of work; no
  existing root unit is touched.
\<close>

lemma scheduleRerender_fresh:
  assumes "currentRoot u = Some r"
  shows "wipRoot (scheduleRerender u) = Some (next_root u)"
    and "nextUnitOfWork (scheduleRerender u) = Some (next_root u, [])"
    and "rc_alt (roots (scheduleRerender u) (next_root u)) = Some r"
    and "next_root (scheduleRerender u) = Suc (next_root u)"
    and "\<forall>b<next_root u. roots (scheduleRerender u) b = roots u b"
    and "console (scheduleRerender u) = console u"
    and "isWorkLoopRunning (scheduleRerender u)"
    and "isWorkLoopRunning u \<Longrightarrow> idleCallbacks (scheduleRerender u) = idleCallbacks u"
  using assms by (simp_all add: scheduleRerender_def startWorkLoop_def Let_def)

lemma setState_fresh:
  assumes "currentRoot u = Some r"
    and "\<not> object_is (apply_action a (map_get (hookStates u) k)) (map_get (hookStates u) k)"
  shows "wipRoot (setState k a u) = Some (next_root u)"
    and "nextUnitOfWork (setState k a u) = Some (next_root u, [])"
    and "rc_alt (roots (setState k a u) (next_root u)) = Some r"
    and "\<forall>b<next_root u. roots (setState k a u) b = roots u b"
    and "console (setState k a u) = console u"
proof -
  let ?u1 = "case updateQueues u k of
               Some q \<Rightarrow> u\<lparr>updateQueues := (updateQueues u)(k \<mapsto> q @ [a])\<rparr> | None \<Rightarrow> u"
  have e: "setState k a u = scheduleRerender ?u1"
    using assms(2) by (simp add: setState_def Let_def)
  have c: "currentRoot ?u1 = Some r" "next_root ?u1 = next_root u" "roots ?u1 = roots u"
    "console ?u1 = console u"
    using assms(1) by (simp_all split: option.split)
  show "wipRoot (setState k a u) = Some (next_root u)"
    using scheduleRerender_fresh(1)[OF c(1)] c(2) e by simp
  show "nextUnitOfWork (setState k a u) = Some (next_root u, [])"
    using scheduleRerender_fresh(2)[OF c(1)] c(2) e by simp
  show "rc_alt (roots (setState k a u) (next_root u)) = Some r"
    using scheduleRerender_fresh(3)[OF c(1)] c(2) e by simp
  show "\<forall>b<next_root u. roots (setState k a u) b = roots u b"
    using scheduleRerender_fresh(5)[OF c(1)] c(2,3) e by simp
  show "console (setState k a u) = console u"
    using scheduleRerender_fresh(6)[OF c(1)] c(4) e by simp
qed

text \<open>
  While callbacks run with the committed root \<open>r\<close> in place: no update is dropped, and
  once one of them has scheduled a re-render, a root unit made from \<open>r\<close> is waiting.
\<close>

lemma steps_scheduled:
  assumes "callback_steps w u" and "currentRoot w = Some r" and "isWorkLoopRunning w"
  shows "currentRoot u = Some r \<and> warnings u = warnings w \<and> isWorkLoopRunning u
         \<and> idleCallbacks u = idleCallbacks w
         \<and> (next_root u = next_root w \<and> wipRoot u = wipRoot w
              \<and> nextUnitOfWork u = nextUnitOfWork w
            \<or> next_root w < next_root u \<and> wipRoot u = Some (next_root u - 1)
              \<and> nextUnitOfWork u = Some (next_root u - 1, [])
              \<and> rc_alt (roots u (next_root u - 1)) = Some r)"
  using assms
proof (induction rule: callback_steps.induct)
  case (same w)
  then show ?case by simp
next
  case (schedule w u)
  have ih: "currentRoot u = Some r" "warnings u = warnings w" "isWorkLoopRunning u"
    "idleCallbacks u = idleCallbacks w" "next_root w \<le> next_root u"
    using schedule.IH[OF schedule.prems] by auto
  show ?case
    using scheduleRerender_fresh[OF ih(1)] ih by (simp add: warnings_def)
next
  case (queue w u q)
  then show ?case by (simp add: warnings_def)
next
  case (actions w u q)
  then show ?case by (simp add: warnings_def)
next
  case (log w u t)
  then show ?case by (simp add: warnings_def)
next
  case (report w u m)
  then show ?case by (simp add: warnings_def console_error_def)
qed

lemma runEffects_Some: "\<exists>g. fst (runEffects (Some f) w) = Some g"
  by (cases f) (simp split: prod.split)

lemma run_root_effects_eq:
  "\<exists>g. run_root_effects r w = store_root r g (snd (runEffects (Some (root_view w r)) w))"
proof -
  obtain g where "fst (runEffects (Some (root_view w r)) w) = Some g"
    using runEffects_Some by blast
  then show ?thesis
    by (cases "runEffects (Some (root_view w r)) w") (auto simp: run_root_effects_def)
qed

text \<open>
  C9: when the render phase completes and the commit succeeds, the effects start in a
  state \<open>w2\<close> in which \<open>currentRoot\<close> is the root just committed and \<open>wipRoot\<close> is
  \<open>null\<close>; no effect has run before (the log at \<open>w2\<close> is that of the commit, and the
  effect pass appends to it). In every state that the callbacks of the pass reach, a
  \<open>setState\<close> that changes the value makes a new work-in-progress root whose \<open>alternate\<close> is
  the committed root, touches no existing root unit and logs no warning. At the end of
  the pass either nothing was scheduled, or such a root is waiting and \<open>workLoop\<close> has
  requested another idle callback.
\<close>

theorem root_swapped_before_effects:
  assumes rl: "render_loop comps deadline w = Inr w1" and nu: "nextUnitOfWork w1 = None"
    and wr: "wipRoot w1 = Some r"
    and cm: "commitRoot (root_view w1 r) (pending_deletions w1) w1 = Inr wc"
    and rn: "r < next_root wc" and run: "isWorkLoopRunning wc"
  shows "\<exists>w2 w3. commit_and_swap r w1 = Inr w2
           \<and> currentRoot w2 = Some r \<and> wipRoot w2 = None \<and> trace w2 = trace wc
           \<and> w3 = run_root_effects r w2
           \<and> workLoop comps deadline w = Inr (reschedule w3)
           \<and> trace w3 = trace w2 @ effect_order (Some (root_view w2 r))
           \<and> currentRoot w3 = Some r \<and> warnings w3 = warnings w2
           \<and> (\<forall>u k a. callback_steps w2 u \<longrightarrow>
                 \<not> object_is (apply_action a (map_get (hookStates u) k)) (map_get (hookStates u) k) \<longrightarrow>
                   wipRoot (setState k a u) = Some (next_root u) \<and> r < next_root u
                   \<and> rc_alt (roots (setState k a u) (next_root u)) = Some r
                   \<and> (\<forall>b<next_root u. roots (setState k a u) b = roots u b)
                   \<and> console (setState k a u) = console u)
           \<and> (next_root w3 = next_root w2 \<and> wipRoot w3 = None
              \<or> next_root w2 < next_root w3
                \<and> (\<exists>a. next_root w2 \<le> a \<and> wipRoot w3 = Some a
                       \<and> nextUnitOfWork w3 = Some (a, []) \<and> rc_alt (roots w3 a) = Some r)
                \<and> idleCallbacks (reschedule w3) = Suc (idleCallbacks w2)
                \<and> isWorkLoopRunning (reschedule w3))"
proof -
  define w2 where
    "w2 = (let w2a = wc\<lparr>currentRoot := Some r, wipRoot := None, globalDeletions := []\<rparr>
           in if has_window w2a then w2a\<lparr>win_deletions := None\<rparr> else w2a)"
  define we where "we = snd (runEffects (Some (root_view w2 r)) w2)"
  define w3 where "w3 = run_root_effects r w2"
  have sw: "commit_and_swap r w1 = Inr w2"
    using cm by (simp add: commit_and_swap_def w2_def Let_def)
  have b: "currentRoot w2 = Some r" "wipRoot w2 = None" "trace w2 = trace wc"
    "next_root w2 = next_root wc" "isWorkLoopRunning w2"
    using run by (simp_all add: w2_def Let_def)
  have wl: "workLoop comps deadline w = Inr (reschedule w3)"
    using workLoop_completes[OF rl nu wr] sw by (simp add: w3_def)
  obtain g where g: "w3 = store_root r g we"
    using run_root_effects_eq[of r w2] unfolding w3_def we_def by blast
  have st: "callback_steps w2 we" unfolding we_def by (rule steps_runEffects)
  have tr: "trace w3 = trace w2 @ effect_order (Some (root_view w2 r))"
  proof -
    have "trace we = trace w2 @ effect_order (Some (root_view w2 r))"
      unfolding we_def by (rule trace_runEffects)
    then show ?thesis using g by (simp add: store_root_def)
  qed
  note inv = steps_scheduled[OF st b(1) b(5)]
  have c3: "currentRoot w3 = Some r" "warnings w3 = warnings w2"
    using inv g by (simp_all add: store_root_def warnings_def)
  have per: "\<forall>u k a. callback_steps w2 u \<longrightarrow>
                 \<not> object_is (apply_action a (map_get (hookStates u) k)) (map_get (hookStates u) k) \<longrightarrow>
                   wipRoot (setState k a u) = Some (next_root u) \<and> r < next_root u
                   \<and> rc_alt (roots (setState k a u) (next_root u)) = Some r
                   \<and> (\<forall>b<next_root u. roots (setState k a u) b = roots u b)
                   \<and> console (setState k a u) = console u"
  proof (intro allI impI)
    fix u k a
    assume s: "callback_steps w2 u"
      and ch: "\<not> object_is (apply_action a (map_get (hookStates u) k)) (map_get (hookStates u) k)"
    have cu: "currentRoot u = Some r" using steps_output[OF s] b(1) by simp
    have "next_root w2 \<le> next_root u" using steps_roots[OF s] by simp
    then have lt: "r < next_root u" using rn b(4) by simp
    show "wipRoot (setState k a u) = Some (next_root u) \<and> r < next_root u
            \<and> rc_alt (roots (setState k a u) (next_root u)) = Some r
            \<and> (\<forall>b<next_root u. roots (setState k a u) b = roots u b)
            \<and> console (setState k a u) = console u"
      using setState_fresh[OF cu ch] lt by simp
  qed
  have fin: "next_root w3 = next_root w2 \<and> wipRoot w3 = None
              \<or> next_root w2 < next_root w3
                \<and> (\<exists>a. next_root w2 \<le> a \<and> wipRoot w3 = Some a
                       \<and> nextUnitOfWork w3 = Some (a, []) \<and> rc_alt (roots w3 a) = Some r)
                \<and> idleCallbacks (reschedule w3) = Suc (idleCallbacks w2)
                \<and> isWorkLoopRunning (reschedule w3)"
  proof -
    have f: "next_root w3 = next_root we" "wipRoot w3 = wipRoot we"
      "nextUnitOfWork w3 = nextUnitOfWork we" "idleCallbacks w3 = idleCallbacks we"
      "isWorkLoopRunning w3 = isWorkLoopRunning we"
      "\<And>a. a \<noteq> r \<Longrightarrow> rc_alt (roots w3 a) = rc_alt (roots we a)"
      using g by (simp_all add: store_root_def)
    from inv have
      "next_root we = next_root w2 \<and> wipRoot we = wipRoot w2
       \<or> next_root w2 < next_root we \<and> wipRoot we = Some (next_root we - 1)
         \<and> nextUnitOfWork we = Some (next_root we - 1, [])
         \<and> rc_alt (roots we (next_root we - 1)) = Some r" by blast
    then show ?thesis
    proof
      assume "next_root we = next_root w2 \<and> wipRoot we = wipRoot w2"
      then show ?thesis using f(1,2) b(2) by simp
    next
      assume a: "next_root w2 < next_root we \<and> wipRoot we = Some (next_root we - 1)
         \<and> nextUnitOfWork we = Some (next_root we - 1, [])
         \<and> rc_alt (roots we (next_root we - 1)) = Some r"
      define n where "n = next_root we - 1"
      have a': "next_root w2 < next_root we" "wipRoot we = Some n"
        "nextUnitOfWork we = Some (n, [])" "rc_alt (roots we n) = Some r"
        using a by (simp_all add: n_def)
      have ge: "next_root w2 \<le> n" using a'(1) by (simp add: n_def)
      then have ne: "n \<noteq> r" using rn b(4) by simp
      have i: "idleCallbacks we = idleCallbacks w2" "isWorkLoopRunning we" using inv by simp_all
      have r1: "idleCallbacks (reschedule w3) = Suc (idleCallbacks w2)"
        using a'(2) f(2,4) i by (simp add: reschedule_def)
      have r2: "isWorkLoopRunning (reschedule w3)"
        using a'(2) f(2,5) i by (simp add: reschedule_def)
      have r3: "\<exists>a. next_root w2 \<le> a \<and> wipRoot w3 = Some a
                       \<and> nextUnitOfWork w3 = Some (a, []) \<and> rc_alt (roots w3 a) = Some r"
        using a' ge f(2,3) f(6)[OF ne] by (intro exI[of _ n]) simp
      show ?thesis using a'(1) f(1) r1 r2 r3 by simp
    qed
  qed
  have "commit_and_swap r w1 = Inr w2
           \<and> currentRoot w2 = Some r \<and> wipRoot w2 = None \<and> trace w2 = trace wc
           \<and> w3 = run_root_effects r w2
           \<and> workLoop comps deadline w = Inr (reschedule w3)
           \<and> trace w3 = trace w2 @ effect_order (Some (root_view w2 r))
           \<and> currentRoot w3 = Some r \<and> warnings w3 = warnings w2"
    using sw b(1,2,3) wl tr c3 by (simp add: w3_def)
  then show ?thesis using per fin by blast
qed

text \<open>
  Example: a component that reads a state cell (initially 0) and whose effect, run once
  after mounting, sets the cell to 1.
\<close>

definition ex_setter :: "nat \<Rightarrow> component" where
  "ex_setter i p w =
     (case useState (InitVal (VNum 0)) w of
        Inl e \<Rightarrow> Inl e
      | Inr ((v, k), w1) \<Rightarrow>
          (case useEffect (Some \<lparr>ef_id = 1, ef_calls = [SetStateCall k (Val (VNum 1))],
                                 ef_result = ReturnsOther\<rparr>) (DArr []) w1 of
             Inl e \<Rightarrow> Inl e
           | Inr w2 \<Rightarrow> Inr (Single (Some (Element (Host ''p'') (Props None [] []))), w2)))"

definition ex_start :: world where
  "ex_start = render ex_app_element 0 (init_world\<lparr>dom_next := 1\<rparr>)"

definition ex_rendered :: world where
  "ex_rendered = projr (render_loop ex_setter [False, False, False] ex_start)"

definition ex_committed :: world where
  "ex_committed = projr (commitRoot (root_view ex_rendered 0) (pending_deletions ex_rendered) ex_rendered)"

lemmas state_defs = useState_def hook_key_def show_nat_0 drain_def setState_def
  scheduleRerender_def map_get_def ex_setter_def ex_start_def commitDeletion.simps
  areDependenciesChanged_def object_is_def

lemma ex_rendered_eq:
  "render_loop ex_setter [False, False, False] ex_start = Inr ex_rendered"
  unfolding ex_rendered_def by (simp add: run_defs state_defs)

lemma ex_rendered_facts:
  "nextUnitOfWork ex_rendered = None" "wipRoot ex_rendered = Some 0"
  unfolding ex_rendered_def by (simp_all add: run_defs state_defs)

lemma ex_committed_eq:
  "commitRoot (root_view ex_rendered 0) (pending_deletions ex_rendered) ex_rendered = Inr ex_committed"
  unfolding ex_committed_def ex_rendered_def by (simp add: run_defs state_defs)

lemma ex_committed_facts:
  "0 < next_root ex_committed" "isWorkLoopRunning ex_committed"
  unfolding ex_committed_def ex_rendered_def by (simp_all add: run_defs state_defs)

lemma ex_first_cycle:
  "trace (projr (workLoop ex_setter [False, False, False] ex_start)) = [RenderRun 0, EffectRun 1]"
  "wipRoot (projr (workLoop ex_setter [False, False, False] ex_start)) = Some 1"
  "nextUnitOfWork (projr (workLoop ex_setter [False, False, False] ex_start)) = Some (1, [])"
  "rc_alt (roots (projr (workLoop ex_setter [False, False, False] ex_start)) 1) = Some 0"
  "idleCallbacks (projr (workLoop ex_setter [False, False, False] ex_start)) = 2"
  "warnings (projr (workLoop ex_setter [False, False, False] ex_start)) = 0"
  "updateQueues (projr (workLoop ex_setter [False, False, False] ex_start)) ''App_0''
     = Some [Val (VNum 1)]"
  by (simp_all add: run_defs state_defs warnings_def)

theorem root_swapped_before_effects_witness:
  "\<exists>w2 w3. commit_and_swap 0 ex_rendered = Inr w2
      \<and> currentRoot w2 = Some 0 \<and> wipRoot w2 = None
      \<and> w3 = run_root_effects 0 w2
      \<and> workLoop ex_setter [False, False, False] ex_start = Inr (reschedule w3)
      \<and> trace (reschedule w3) = [RenderRun 0, EffectRun 1]
      \<and> currentRoot w3 = Some 0 \<and> warnings (reschedule w3) = 0
      \<and> wipRoot (reschedule w3) = Some 1 \<and> nextUnitOfWork (reschedule w3) = Some (1, [])
      \<and> rc_alt (roots (reschedule w3) 1) = Some 0
      \<and> updateQueues (reschedule w3) ''App_0'' = Some [Val (VNum 1)]"
proof -
  obtain w2 w3 where a: "commit_and_swap 0 ex_rendered = Inr w2"
    "currentRoot w2 = Some 0" "wipRoot w2 = None" "w3 = run_root_effects 0 w2"
    "workLoop ex_setter [False, False, False] ex_start = Inr (reschedule w3)"
    "currentRoot w3 = Some 0"
    using root_swapped_before_effects[OF ex_rendered_eq ex_rendered_facts ex_committed_eq
        ex_committed_facts]
    by blast
  have e: "projr (workLoop ex_setter [False, False, False] ex_start) = reschedule w3"
    using a(5) by simp
  show ?thesis
    using a ex_first_cycle[unfolded e] by blast
qed

text \<open>The re-render that the effect scheduled then takes place, with the new state.\<close>

lemma ex_second_cycle:
  "trace (projr (workLoop ex_setter [False, False, False]
             (projr (workLoop ex_setter [False, False, False] ex_start))))
     = [RenderRun 0, EffectRun 1, RenderRun 0]"
  "hookStates (projr (workLoop ex_setter [False, False, False]
             (projr (workLoop ex_setter [False, False, False] ex_start)))) ''App_0''
     = Some (VNum 1)"
  "wipRoot (projr (workLoop ex_setter [False, False, False]
             (projr (workLoop ex_setter [False, False, False] ex_start)))) = None"
  "currentRoot (projr (workLoop ex_setter [False, False, False]
             (projr (workLoop ex_setter [False, False, False] ex_start)))) = Some 1"
  by (simp_all add: run_defs state_defs depsChanged_lists)

section \<open>Batching of state updates\<close>

text \<open>The setter calls \<open>setState(a)\<close> for \<open>a\<close> in \<open>acts\<close>, one after the other.\<close>

definition setter_calls :: "string \<Rightarrow> action list \<Rightarrow> call list" where
  "setter_calls k acts = map (SetStateCall k) acts"

text \<open>\<open>a\<close> gives a value other than the stored state of the cell \<open>k\<close>.\<close>

definition changes :: "world \<Rightarrow> string \<Rightarrow> action \<Rightarrow> bool" where
  "changes w k a =
     (\<not> object_is (apply_action a (map_get (hookStates w) k)) (map_get (hookStates w) k))"

lemma setState_unchanged: "\<not> changes w k a \<Longrightarrow> setState k a w = w"
  by (simp add: setState_def changes_def Let_def)

lemma setState_changed:
  assumes "changes w k a" and "currentRoot w = Some r" and "updateQueues w k = Some q"
  shows "updateQueues (setState k a w) = (updateQueues w)(k \<mapsto> q @ [a])"
    and "hookStates (setState k a w) = hookStates w"
    and "currentRoot (setState k a w) = Some r"
    and "isWorkLoopRunning (setState k a w)"
    and "idleCallbacks (setState k a w)
           = (if isWorkLoopRunning w then idleCallbacks w else Suc (idleCallbacks w))"
    and "wipRoot (setState k a w) = Some (next_root w)"
    and "nextUnitOfWork (setState k a w) = Some (next_root w, [])"
    and "rc_alt (roots (setState k a w) (next_root w)) = Some r"
    and "next_root (setState k a w) = Suc (next_root w)"
  using assms
  by (simp_all add: setState_def changes_def Let_def scheduleRerender_def startWorkLoop_def)

lemma changes_cong:
  "hookStates w' = hookStates w \<Longrightarrow> changes w' k a = changes w k a"
  by (simp add: changes_def)

text \<open>
  Any number of changing setter calls: all are queued in call order, the loop is requested
  at most once, and the last root made is the one waiting.
\<close>

lemma run_setters:
  assumes "acts \<noteq> []" and "\<forall>a\<in>set acts. changes w k a"
    and "currentRoot w = Some r" and "updateQueues w k = Some q"
  shows "updateQueues (run_calls (setter_calls k acts) w) k = Some (q @ acts)
       \<and> hookStates (run_calls (setter_calls k acts) w) = hookStates w
       \<and> isWorkLoopRunning (run_calls (setter_calls k acts) w)
       \<and> idleCallbacks (run_calls (setter_calls k acts) w)
           = (if isWorkLoopRunning w then idleCallbacks w else Suc (idleCallbacks w))
       \<and> next_root (run_calls (setter_calls k acts) w) = next_root w + length acts
       \<and> wipRoot (run_calls (setter_calls k acts) w) = Some (next_root w + length acts - 1)
       \<and> nextUnitOfWork (run_calls (setter_calls k acts) w)
           = Some (next_root w + length acts - 1, [])
       \<and> rc_alt (roots (run_calls (setter_calls k acts) w) (next_root w + length acts - 1)) = Some r"
  using assms
proof (induction acts arbitrary: w q)
  case Nil
  then show ?case by simp
next
  case (Cons a as)
  let ?w1 = "setState k a w"
  have c: "changes w k a" using Cons.prems(2) by simp
  note s = setState_changed[OF c Cons.prems(3) Cons.prems(4)]
  have e: "run_calls (setter_calls k (a # as)) w = run_calls (setter_calls k as) ?w1"
    by (simp add: setter_calls_def)
  show ?case
  proof (cases "as = []")
    case True
    then show ?thesis using s e by (simp add: setter_calls_def)
  next
    case False
    have ch: "\<forall>b\<in>set as. changes ?w1 k b"
      using Cons.prems(2) changes_cong[OF s(2)] by simp
    have q1: "updateQueues ?w1 k = Some (q @ [a])" using s(1) by simp
    note ih = Cons.IH[OF False ch s(3) q1]
    have l: "0 < length as" using False by simp
    show ?thesis unfolding e using ih s(2,4,5,9) l by simp
  qed
qed

lemma run_setters_unchanged:
  "\<forall>a\<in>set acts. \<not> changes w k a \<Longrightarrow> run_calls (setter_calls k acts) w = w"
  by (induction acts) (simp_all add: setter_calls_def setState_unchanged)

text \<open>The next read of the cell: the queued updates applied in order to the stored state.\<close>

lemma useState_drains:
  assumes "getCurrentFiber u = Some cur" and "fhooks (fdata cur) = Some hs"
    and "hook_key (ftype (fdata cur)) (getCurrentHookIndex u) = k"
    and "hookStates u k = Some v" and "updateQueues u k = Some acts"
  shows "\<exists>u'. useState ini u = Inr ((drain v acts, k), u')
           \<and> hookStates u' k = Some (drain v acts) \<and> updateQueues u' k = Some []"
proof -
  obtain x k' u' where r: "useState ini u = Inr ((x, k'), u')"
    using useState_succeeds[OF assms(1,2)] by blast
  have k: "k' = k" using useState_result(1)[OF r assms(1)] assms(3) by simp
  have x: "x = drain v acts" using useState_result(2)[OF r assms(1)] k assms(4,5) by simp
  have "hookStates u' k = Some x" "updateQueues u' k = Some []"
    using useState_result(3,4)[OF r assms(1)] k by simp_all
  then show ?thesis using r k x by simp
qed

text \<open>
  Example: a component \<open>App\<close> that reads one state cell, initially 0, mounted; the work
  loop has finished and nothing is pending.
\<close>

definition ex_counter :: "nat \<Rightarrow> component" where
  "ex_counter i p w =
     (case useState (InitVal (VNum 0)) w of
        Inl e \<Rightarrow> Inl e
      | Inr ((v, k), w1) \<Rightarrow>
          Inr (Single (Some (Element (Host ''button'') (Props None [] []))), w1))"

definition ex_idle :: world where
  "ex_idle = projr (run_idle_callback ex_counter [False, False, False] ex_start)"

lemmas counter_defs = run_idle_callback_def ex_counter_def ex_idle_def setter_calls_def

lemma ex_idle_facts:
  "currentRoot ex_idle = Some 0" "\<not> isWorkLoopRunning ex_idle"
  "hookStates ex_idle ''App_0'' = Some (VNum 0)" "updateQueues ex_idle ''App_0'' = Some []"
  "idleCallbacks ex_idle = 0" "trace ex_idle = [RenderRun 0]" "wipRoot ex_idle = None"
  "nextUnitOfWork ex_idle = None"
  by (simp_all add: run_defs state_defs counter_defs)

text \<open>
  With the stored state 0, \<open>setCount(0); setCount(0)\<close> changes nothing: no idle callback is
  requested, and the host has no work loop to run; the component is not rendered again.
\<close>

theorem noop_setter_calls_render_nothing:
  "hookStates ex_idle ''App_0'' = Some (VNum 0)
   \<and> trace ex_idle = [RenderRun 0]
   \<and> idleCallbacks (run_calls (setter_calls ''App_0'' [Val (VNum 0), Val (VNum 0)]) ex_idle) = 0
   \<and> wipRoot (run_calls (setter_calls ''App_0'' [Val (VNum 0), Val (VNum 0)]) ex_idle) = None
   \<and> trace (projr (run_idle_callback ex_counter [False, False, False]
               (run_calls (setter_calls ''App_0'' [Val (VNum 0), Val (VNum 0)]) ex_idle)))
       = [RenderRun 0]"
proof -
  have "\<forall>a\<in>set [Val (VNum 0), Val (VNum 0)]. \<not> changes ex_idle ''App_0'' a"
    by (simp add: changes_def ex_idle_facts map_get_def object_is_def)
  then have "run_calls (setter_calls ''App_0'' [Val (VNum 0), Val (VNum 0)]) ex_idle = ex_idle"
    by (rule run_setters_unchanged)
  then show ?thesis by (simp add: ex_idle_facts run_idle_callback_def)
qed

text \<open>
  C3 (amended): for a state cell that has been read (its queue exists and is empty), with
  a committed root and no work loop running, setter calls each of which gives a value other
  than the stored state are batched: all are queued in call order, exactly one idle
  callback is requested however many calls there are, one new root made from the committed
  one is waiting, and the next read of the cell returns the stored state with the queued
  updates applied in call order (a functional updater receives the accumulated value),
  and empties the queue. Setter calls that all give the stored state change nothing.
\<close>

theorem setter_calls_batched:
  assumes cr: "currentRoot w = Some r" and idle: "\<not> isWorkLoopRunning w"
    and hs: "hookStates w k = Some v" and qu: "updateQueues w k = Some []"
  shows "(acts \<noteq> [] \<and> (\<forall>a\<in>set acts. changes w k a) \<longrightarrow>
            updateQueues (run_calls (setter_calls k acts) w) k = Some acts
            \<and> hookStates (run_calls (setter_calls k acts) w) = hookStates w
            \<and> idleCallbacks (run_calls (setter_calls k acts) w) = Suc (idleCallbacks w)
            \<and> (\<exists>n. wipRoot (run_calls (setter_calls k acts) w) = Some n
                   \<and> nextUnitOfWork (run_calls (setter_calls k acts) w) = Some (n, [])
                   \<and> rc_alt (roots (run_calls (setter_calls k acts) w) n) = Some r)
            \<and> (\<forall>u cur hooks ini.
                  getCurrentFiber u = Some cur \<and> fhooks (fdata cur) = Some hooks
                  \<and> hook_key (ftype (fdata cur)) (getCurrentHookIndex u) = k
                  \<and> hookStates u k = hookStates (run_calls (setter_calls k acts) w) k
                  \<and> updateQueues u k = updateQueues (run_calls (setter_calls k acts) w) k
                  \<longrightarrow> (\<exists>u'. useState ini u = Inr ((drain v acts, k), u')
                            \<and> hookStates u' k = Some (drain v acts)
                            \<and> updateQueues u' k = Some [])))
         \<and> ((\<forall>a\<in>set acts. \<not> changes w k a) \<longrightarrow> run_calls (setter_calls k acts) w = w)"
proof -
  have B: "(\<forall>a\<in>set acts. \<not> changes w k a) \<longrightarrow> run_calls (setter_calls k acts) w = w"
    using run_setters_unchanged[of acts w k] by blast
  have A: "acts \<noteq> [] \<and> (\<forall>a\<in>set acts. changes w k a) \<longrightarrow>
            updateQueues (run_calls (setter_calls k acts) w) k = Some acts
            \<and> hookStates (run_calls (setter_calls k acts) w) = hookStates w
            \<and> idleCallbacks (run_calls (setter_calls k acts) w) = Suc (idleCallbacks w)
            \<and> (\<exists>n. wipRoot (run_calls (setter_calls k acts) w) = Some n
                   \<and> nextUnitOfWork (run_calls (setter_calls k acts) w) = Some (n, [])
                   \<and> rc_alt (roots (run_calls (setter_calls k acts) w) n) = Some r)
            \<and> (\<forall>u cur hooks ini.
                  getCurrentFiber u = Some cur \<and> fhooks (fdata cur) = Some hooks
                  \<and> hook_key (ftype (fdata cur)) (getCurrentHookIndex u) = k
                  \<and> hookStates u k = hookStates (run_calls (setter_calls k acts) w) k
                  \<and> updateQueues u k = updateQueues (run_calls (setter_calls k acts) w) k
                  \<longrightarrow> (\<exists>u'. useState ini u = Inr ((drain v acts, k), u')
                            \<and> hookStates u' k = Some (drain v acts)
                            \<and> updateQueues u' k = Some []))"
  proof (rule impI)
  assume a: "acts \<noteq> [] \<and> (\<forall>a\<in>set acts. changes w k a)"
  define w' where "w' = run_calls (setter_calls k acts) w"
  have b: "updateQueues w' k = Some acts" "hookStates w' = hookStates w"
    "idleCallbacks w' = Suc (idleCallbacks w)"
    "wipRoot w' = Some (next_root w + length acts - 1)"
    "nextUnitOfWork w' = Some (next_root w + length acts - 1, [])"
    "rc_alt (roots w' (next_root w + length acts - 1)) = Some r"
    using run_setters[of acts w k r "[]"] a cr qu idle unfolding w'_def by simp_all
  have rd: "\<forall>u cur hooks ini.
                  getCurrentFiber u = Some cur \<and> fhooks (fdata cur) = Some hooks
                  \<and> hook_key (ftype (fdata cur)) (getCurrentHookIndex u) = k
                  \<and> hookStates u k = hookStates w' k
                  \<and> updateQueues u k = updateQueues w' k
                  \<longrightarrow> (\<exists>u'. useState ini u = Inr ((drain v acts, k), u')
                            \<and> hookStates u' k = Some (drain v acts)
                            \<and> updateQueues u' k = Some [])"
  proof (intro allI impI)
    fix u cur hooks ini
    assume h: "getCurrentFiber u = Some cur \<and> fhooks (fdata cur) = Some hooks
                  \<and> hook_key (ftype (fdata cur)) (getCurrentHookIndex u) = k
                  \<and> hookStates u k = hookStates w' k
                  \<and> updateQueues u k = updateQueues w' k"
    have h1: "getCurrentFiber u = Some cur" and h2: "fhooks (fdata cur) = Some hooks"
      and h3: "hook_key (ftype (fdata cur)) (getCurrentHookIndex u) = k"
      and h4: "hookStates u k = Some v" and h5: "updateQueues u k = Some acts"
      using h b(1,2) hs by simp_all
    show "\<exists>u'. useState ini u = Inr ((drain v acts, k), u')
                            \<and> hookStates u' k = Some (drain v acts)
                            \<and> updateQueues u' k = Some []"
      by (rule useState_drains[OF h1 h2 h3 h4 h5])
  qed
  show "updateQueues (run_calls (setter_calls k acts) w) k = Some acts
            \<and> hookStates (run_calls (setter_calls k acts) w) = hookStates w
            \<and> idleCallbacks (run_calls (setter_calls k acts) w) = Suc (idleCallbacks w)
            \<and> (\<exists>n. wipRoot (run_calls (setter_calls k acts) w) = Some n
                   \<and> nextUnitOfWork (run_calls (setter_calls k acts) w) = Some (n, [])
                   \<and> rc_alt (roots (run_calls (setter_calls k acts) w) n) = Some r)
            \<and> (\<forall>u cur hooks ini.
                  getCurrentFiber u = Some cur \<and> fhooks (fdata cur) = Some hooks
                  \<and> hook_key (ftype (fdata cur)) (getCurrentHookIndex u) = k
                  \<and> hookStates u k = hookStates (run_calls (setter_calls k acts) w) k
                  \<and> updateQueues u k = updateQueues (run_calls (setter_calls k acts) w) k
                  \<longrightarrow> (\<exists>u'. useState ini u = Inr ((drain v acts, k), u')
                            \<and> hookStates u' k = Some (drain v acts)
                            \<and> updateQueues u' k = Some []))"
    using b rd unfolding w'_def by blast
  qed
  show ?thesis by (rule conjI[OF A B])
qed

text \<open>
  \<open>setCount(1); setCount(2); setCount(3)\<close> on the mounted example: one idle callback is
  requested; when the host runs it, the component is rendered once more, with the state 3,
  and nothing is left pending.
\<close>

lemma ex_batched_cycle:
  "trace (projr (run_idle_callback ex_counter [False, False, False]
       (run_calls (setter_calls ''App_0'' [Val (VNum 1), Val (VNum 2), Val (VNum 3)]) ex_idle)))
     = [RenderRun 0, RenderRun 0]"
  "hookStates (projr (run_idle_callback ex_counter [False, False, False]
       (run_calls (setter_calls ''App_0'' [Val (VNum 1), Val (VNum 2), Val (VNum 3)]) ex_idle)))
       ''App_0'' = Some (VNum 3)"
  "idleCallbacks (projr (run_idle_callback ex_counter [False, False, False]
       (run_calls (setter_calls ''App_0'' [Val (VNum 1), Val (VNum 2), Val (VNum 3)]) ex_idle))) = 0"
  "wipRoot (projr (run_idle_callback ex_counter [False, False, False]
       (run_calls (setter_calls ''App_0'' [Val (VNum 1), Val (VNum 2), Val (VNum 3)]) ex_idle))) = None"
  by (simp_all add: run_defs state_defs counter_defs)

theorem setter_calls_batched_witness:
  "idleCallbacks ex_idle = 0 \<and> trace ex_idle = [RenderRun 0]
   \<and> idleCallbacks (run_calls (setter_calls ''App_0'' [Val (VNum 1), Val (VNum 2), Val (VNum 3)])
        ex_idle) = 1
   \<and> updateQueues (run_calls (setter_calls ''App_0'' [Val (VNum 1), Val (VNum 2), Val (VNum 3)])
        ex_idle) ''App_0'' = Some [Val (VNum 1), Val (VNum 2), Val (VNum 3)]
   \<and> drain (VNum 0) [Val (VNum 1), Val (VNum 2), Val (VNum 3)] = VNum 3
   \<and> trace (projr (run_idle_callback ex_counter [False, False, False]
       (run_calls (setter_calls ''App_0'' [Val (VNum 1), Val (VNum 2), Val (VNum 3)]) ex_idle)))
     = [RenderRun 0, RenderRun 0]
   \<and> hookStates (projr (run_idle_callback ex_counter [False, False, False]
       (run_calls (setter_calls ''App_0'' [Val (VNum 1), Val (VNum 2), Val (VNum 3)]) ex_idle)))
       ''App_0'' = Some (VNum 3)"
proof -
  have ch: "\<forall>a\<in>set [Val (VNum 1), Val (VNum 2), Val (VNum 3)]. changes ex_idle ''App_0'' a"
    by (simp add: changes_def ex_idle_facts map_get_def object_is_def)
  have "updateQueues (run_calls (setter_calls ''App_0'' [Val (VNum 1), Val (VNum 2), Val (VNum 3)])
            ex_idle) ''App_0'' = Some [Val (VNum 1), Val (VNum 2), Val (VNum 3)]
        \<and> idleCallbacks (run_calls (setter_calls ''App_0'' [Val (VNum 1), Val (VNum 2), Val (VNum 3)])
            ex_idle) = Suc (idleCallbacks ex_idle)"
    using setter_calls_batched[OF ex_idle_facts(1,2,3,4),
        of "[Val (VNum 1), Val (VNum 2), Val (VNum 3)]"] ch
    by blast
  then show ?thesis
    using ex_batched_cycle by (simp add: ex_idle_facts drain_def)
qed

text \<open>
  The comparison in \<open>setState\<close> is with the stored state, not with the value that the
  queued updates will give: with the stored state 0, \<open>setCount(1); setCount(0)\<close> queues the
  first call only, and the next render has the state 1.
\<close>

lemma ex_setter_compares_with_stored_state:
  "updateQueues (run_calls (setter_calls ''App_0'' [Val (VNum 1), Val (VNum 0)]) ex_idle) ''App_0''
     = Some [Val (VNum 1)]"
  "hookStates (projr (run_idle_callback ex_counter [False, False, False]
       (run_calls (setter_calls ''App_0'' [Val (VNum 1), Val (VNum 0)]) ex_idle)))
       ''App_0'' = Some (VNum 1)"
  by (simp_all add: run_defs state_defs counter_defs)

end
